theory Spec2Isabelle
  imports Main
begin

section \<open>Rectangle\<close>

text \<open>
  \<^verbatim>\<open>function Rectangle(width, height)\<close> stores its two arguments as own properties of
  the new instance and then assigns a new function object to
  \<^verbatim>\<open>Rectangle.prototype.getArea\<close>. That function closes over the parameters of the
  construction that created it. The prototype is one object shared by all instances, so
  it is the state that is passed along; an instance has no own \<^verbatim>\<open>getArea\<close> property
  and \<^verbatim>\<open>r.getArea()\<close> is looked up in the prototype. The number type is left open: only
  its multiplication is used.
\<close>

record 'n rectangle =
  width :: 'n
  height :: 'n

datatype 'n getArea_closure = GetArea_closure 'n 'n

type_synonym 'n Rectangle_prototype = "'n getArea_closure option"

definition Rectangle :: "'n \<Rightarrow> 'n \<Rightarrow> 'n Rectangle_prototype \<Rightarrow> 'n rectangle \<times> 'n Rectangle_prototype" where
  "Rectangle w h proto = (\<lparr>width = w, height = h\<rparr>, Some (GetArea_closure w h))"

text \<open>Calling the closure: \<^verbatim>\<open>return width * height\<close> on the captured parameters.\<close>

fun call_getArea :: "'n::times getArea_closure \<Rightarrow> 'n" where
  "call_getArea (GetArea_closure w h) = w * h"

text \<open>
  \<^verbatim>\<open>r.getArea()\<close>: the receiver \<open>r\<close> is not read by the function body. \<open>None\<close> stands for
  the TypeError of calling an undefined property (no construction has happened yet).
\<close>

definition getArea :: "'n::times rectangle \<Rightarrow> 'n Rectangle_prototype \<Rightarrow> 'n option" where
  "getArea r proto = (case proto of None \<Rightarrow> None | Some f \<Rightarrow> Some (call_getArea f))"

text \<open>A run of constructions, returning the instances in creation order.\<close>

fun constructions :: "('n \<times> 'n) list \<Rightarrow> 'n Rectangle_prototype \<Rightarrow> 'n rectangle list \<times> 'n Rectangle_prototype" where
  "constructions [] proto = ([], proto)"
| "constructions ((w, h) # args) proto =
     (let (r, proto1) = Rectangle w h proto;
          (rs, proto2) = constructions args proto1
      in (r # rs, proto2))"


section \<open>getJSON and fromJSON\<close>

text \<open>
  \<^verbatim>\<open>getJSON\<close> and \<^verbatim>\<open>fromJSON\<close> call three built-ins of the language: \<^verbatim>\<open>JSON.stringify\<close>,
  \<^verbatim>\<open>JSON.parse\<close> and \<^verbatim>\<open>Object.setPrototypeOf\<close>. They are modelled here from their
  documentation (ECMAScript, sections JSON.stringify, JSON.parse and
  Object.setPrototypeOf), over the values that JSON text can denote. An object is its
  prototype and its own enumerable properties in enumeration order; an array is its
  prototype and its elements. Numbers are integers and strings are lists of \<open>char\<close>:
  a number text with a fraction or an exponent, and an escape that names a code unit
  beyond the 256 characters, have no value here and are answered with \<open>Unsupported\<close>.
\<close>

datatype prototype = Object_prototype | Array_prototype | Prototype nat

datatype jsval =
    JNull
  | JBool bool
  | JNum int
  | JStr string
  | JArr prototype "jsval list"
  | JObj prototype "(string \<times> jsval) list"

datatype json_error = SyntaxError | TypeError | Unsupported

subsection \<open>JSON.stringify\<close>





definition hex_char :: "nat \<Rightarrow> char" where
  "hex_char d = (if d < 10 then char_of (48 + d) else char_of (87 + d))"

text \<open>
  \<^verbatim>\<open>QuoteJSONString\<close>: the quote and the backslash are escaped with a backslash, the five
  control characters with a short form by it, every other character below space as
  \<^verbatim>\<open>\u00\<close> and two lower-case hexadecimal digits; every other character stands for itself.
\<close>

definition escape_char :: "char \<Rightarrow> string" where
  "escape_char c =
     (if c = CHR 0x22 then [CHR 0x5C, CHR 0x22]
      else if c = CHR 0x5C then [CHR 0x5C, CHR 0x5C]
      else if c = CHR 0x08 then [CHR 0x5C, CHR ''b'']
      else if c = CHR 0x09 then [CHR 0x5C, CHR ''t'']
      else if c = CHR 0x0A then [CHR 0x5C, CHR ''n'']
      else if c = CHR 0x0C then [CHR 0x5C, CHR ''f'']
      else if c = CHR 0x0D then [CHR 0x5C, CHR ''r'']
      else if (of_char c :: nat) < 32
        then [CHR 0x5C, CHR ''u'', CHR ''0'', CHR ''0'', hex_char (of_char c div 16), hex_char (of_char c mod 16)]
      else [c])"

definition QuoteJSONString :: "string \<Rightarrow> string" where
  "QuoteJSONString s = CHR 0x22 # concat (map escape_char s) @ [CHR 0x22]"



subsection \<open>JSON.parse\<close>

definition is_ws :: "char \<Rightarrow> bool" where
  "is_ws c = (c = CHR '' '' \<or> c = CHR 0x09 \<or> c = CHR 0x0A \<or> c = CHR 0x0D)"

definition skip_ws :: "string \<Rightarrow> string" where
  "skip_ws s = dropWhile is_ws s"

definition is_digit :: "char \<Rightarrow> bool" where
  "is_digit c = (48 \<le> (of_char c :: nat) \<and> (of_char c :: nat) \<le> 57)"

definition read_nat :: "string \<Rightarrow> nat" where
  "read_nat ds = foldl (\<lambda>a c. 10 * a + (of_char c - 48)) 0 ds"

text \<open>
  A number token: an optional minus sign, then \<^verbatim>\<open>0\<close> or a run of digits that does not
  start with \<^verbatim>\<open>0\<close>. A fraction or an exponent after it denotes a value outside the
  integers.
\<close>

definition parse_number :: "string \<Rightarrow> json_error + (int \<times> string)" where
  "parse_number s =
     (let neg = (s \<noteq> [] \<and> hd s = CHR ''-'');
          s1 = (if neg then tl s else s);
          ds = takeWhile is_digit s1;
          r = dropWhile is_digit s1
      in if ds = [] then Inl SyntaxError
         else if hd ds = CHR ''0'' \<and> 1 < length ds then Inl SyntaxError
         else if r \<noteq> [] \<and> (hd r = CHR ''.'' \<or> hd r = CHR ''e'' \<or> hd r = CHR ''E'') then Inl Unsupported
         else Inr (if neg then - int (read_nat ds) else int (read_nat ds), r))"

definition hex_val :: "char \<Rightarrow> nat option" where
  "hex_val c =
     (let n = (of_char c :: nat)
      in if 48 \<le> n \<and> n \<le> 57 then Some (n - 48)
         else if 97 \<le> n \<and> n \<le> 102 then Some (n - 87)
         else if 65 \<le> n \<and> n \<le> 70 then Some (n - 55)
         else None)"

definition unescape :: "char \<Rightarrow> char option" where
  "unescape e =
     (if e = CHR 0x22 then Some (CHR 0x22)
      else if e = CHR 0x5C then Some (CHR 0x5C)
      else if e = CHR ''/'' then Some (CHR ''/'')
      else if e = CHR ''b'' then Some (CHR 0x08)
      else if e = CHR ''f'' then Some (CHR 0x0C)
      else if e = CHR ''n'' then Some (CHR 0x0A)
      else if e = CHR ''r'' then Some (CHR 0x0D)
      else if e = CHR ''t'' then Some (CHR 0x09)
      else None)"

definition unicode_escape :: "string \<Rightarrow> json_error + char" where
  "unicode_escape hs =
     (case map hex_val hs of
        [Some a, Some b, Some c, Some d] \<Rightarrow>
          (let n = ((a * 16 + b) * 16 + c) * 16 + d
           in if n < 256 then Inr (char_of n) else Inl Unsupported)
      | _ \<Rightarrow> Inl SyntaxError)"

text \<open>
  The characters of a string token after its opening quote, up to the closing quote.
  A character below space may not stand unescaped.
\<close>

fun parse_string :: "string \<Rightarrow> json_error + (string \<times> string)" where
  "parse_string [] = Inl SyntaxError"
| "parse_string (c # s) =
     (if c = CHR 0x22 then Inr ([], s)
      else if c = CHR 0x5C then
        (case s of
           [] \<Rightarrow> Inl SyntaxError
         | e # s1 \<Rightarrow>
             if e = CHR ''u'' then
               (case unicode_escape (take 4 s1) of
                  Inl err \<Rightarrow> Inl err
                | Inr ch \<Rightarrow>
                    (case parse_string (drop 4 s1) of
                       Inl err \<Rightarrow> Inl err
                     | Inr (str, r) \<Rightarrow> Inr (ch # str, r)))
             else
               (case unescape e of
                  None \<Rightarrow> Inl SyntaxError
                | Some ch \<Rightarrow>
                    (case parse_string s1 of
                       Inl err \<Rightarrow> Inl err
                     | Inr (str, r) \<Rightarrow> Inr (ch # str, r))))
      else if (of_char c :: nat) < 32 then Inl SyntaxError
      else
        (case parse_string s of
           Inl err \<Rightarrow> Inl err
         | Inr (str, r) \<Rightarrow> Inr (c # str, r)))"

definition literal :: "string \<Rightarrow> jsval \<Rightarrow> string \<Rightarrow> json_error + (jsval \<times> string)" where
  "literal w v s = (if take (length w) s = w then Inr (v, drop (length w) s) else Inl SyntaxError)"

text \<open>
  \<^verbatim>\<open>CreateDataProperty\<close> on the object under construction: a key already present keeps
  its place and takes the new value, a new key goes to the end.
\<close>

fun set_property :: "string \<Rightarrow> jsval \<Rightarrow> (string \<times> jsval) list \<Rightarrow> (string \<times> jsval) list" where
  "set_property k v [] = [(k, v)]"
| "set_property k v ((k', v') # ps) = (if k' = k then (k, v) # ps else (k', v') # set_property k v ps)"

definition make_object :: "(string \<times> jsval) list \<Rightarrow> jsval" where
  "make_object ms = JObj Object_prototype (foldl (\<lambda>ps kv. set_property (fst kv) (snd kv) ps) [] ms)"

text \<open>
  The parser descends through arrays and objects; its first argument bounds the number
  of nested calls, and \<open>None\<close> says that the bound was reached before the parser returned.
\<close>

fun parse_value :: "nat \<Rightarrow> string \<Rightarrow> (json_error + jsval \<times> string) option"
  and parse_elements :: "nat \<Rightarrow> string \<Rightarrow> (json_error + jsval list \<times> string) option"
  and parse_members :: "nat \<Rightarrow> string \<Rightarrow> (json_error + (string \<times> jsval) list \<times> string) option"
where
  "parse_value 0 s = None"
| "parse_value (Suc f) s =
     (case skip_ws s of
        [] \<Rightarrow> Some (Inl SyntaxError)
      | c # r \<Rightarrow>
          if c = CHR ''['' then
            (case skip_ws r of
               [] \<Rightarrow> Some (Inl SyntaxError)
             | c' # r' \<Rightarrow>
                 if c' = CHR '']'' then Some (Inr (JArr Array_prototype [], r'))
                 else (case parse_elements f r of
                         None \<Rightarrow> None
                       | Some (Inl err) \<Rightarrow> Some (Inl err)
                       | Some (Inr (xs, r'')) \<Rightarrow> Some (Inr (JArr Array_prototype xs, r''))))
          else if c = CHR ''{'' then
            (case skip_ws r of
               [] \<Rightarrow> Some (Inl SyntaxError)
             | c' # r' \<Rightarrow>
                 if c' = CHR ''}'' then Some (Inr (JObj Object_prototype [], r'))
                 else (case parse_members f r of
                         None \<Rightarrow> None
                       | Some (Inl err) \<Rightarrow> Some (Inl err)
                       | Some (Inr (ms, r'')) \<Rightarrow> Some (Inr (make_object ms, r''))))
          else if c = CHR 0x22 then
            (case parse_string r of
               Inl err \<Rightarrow> Some (Inl err)
             | Inr (str, r') \<Rightarrow> Some (Inr (JStr str, r')))
          else if c = CHR ''t'' then Some (literal ''true'' (JBool True) (c # r))
          else if c = CHR ''f'' then Some (literal ''false'' (JBool False) (c # r))
          else if c = CHR ''n'' then Some (literal ''null'' JNull (c # r))
          else (case parse_number (c # r) of
                  Inl err \<Rightarrow> Some (Inl err)
                | Inr (n, r') \<Rightarrow> Some (Inr (JNum n, r'))))"
| "parse_elements 0 s = None"
| "parse_elements (Suc f) s =
     (case parse_value f s of
        None \<Rightarrow> None
      | Some (Inl err) \<Rightarrow> Some (Inl err)
      | Some (Inr (v, r)) \<Rightarrow>
          (case skip_ws r of
             [] \<Rightarrow> Some (Inl SyntaxError)
           | c # r' \<Rightarrow>
               if c = CHR '','' then
                 (case parse_elements f r' of
                    None \<Rightarrow> None
                  | Some (Inl err) \<Rightarrow> Some (Inl err)
                  | Some (Inr (vs, r'')) \<Rightarrow> Some (Inr (v # vs, r'')))
               else if c = CHR '']'' then Some (Inr ([v], r'))
               else Some (Inl SyntaxError)))"
| "parse_members 0 s = None"
| "parse_members (Suc f) s =
     (case skip_ws s of
        [] \<Rightarrow> Some (Inl SyntaxError)
      | q # r \<Rightarrow>
          if q \<noteq> CHR 0x22 then Some (Inl SyntaxError)
          else (case parse_string r of
                  Inl err \<Rightarrow> Some (Inl err)
                | Inr (k, r1) \<Rightarrow>
                    (case skip_ws r1 of
                       [] \<Rightarrow> Some (Inl SyntaxError)
                     | c # r2 \<Rightarrow>
                         if c \<noteq> CHR '':'' then Some (Inl SyntaxError)
                         else (case parse_value f r2 of
                                 None \<Rightarrow> None
                               | Some (Inl err) \<Rightarrow> Some (Inl err)
                               | Some (Inr (v, r3)) \<Rightarrow>
                                   (case skip_ws r3 of
                                      [] \<Rightarrow> Some (Inl SyntaxError)
                                    | d # r4 \<Rightarrow>
                                        if d = CHR '','' then
                                          (case parse_members f r4 of
                                             None \<Rightarrow> None
                                           | Some (Inl err) \<Rightarrow> Some (Inl err)
                                           | Some (Inr (ms, r5)) \<Rightarrow> Some (Inr ((k, v) # ms, r5)))
                                        else if d = CHR ''}'' then Some (Inr ([(k, v)], r4))
                                        else Some (Inl SyntaxError))))))"

text \<open>
  \<^verbatim>\<open>JSON.parse(text)\<close> with no reviver: one value, with nothing but white space after
  it. The bound \<open>2 * length text + 1\<close> is more than any text can use.
\<close>

definition JSON_parse :: "string \<Rightarrow> (json_error + jsval) option" where
  "JSON_parse s =
     (case parse_value (2 * length s + 1) s of
        None \<Rightarrow> None
      | Some (Inl err) \<Rightarrow> Some (Inl err)
      | Some (Inr (v, r)) \<Rightarrow> if skip_ws r = [] then Some (Inr v) else Some (Inl SyntaxError))"

subsection \<open>Object.setPrototypeOf\<close>

text \<open>
  \<^verbatim>\<open>Object.setPrototypeOf(O, proto)\<close>: a \<^verbatim>\<open>TypeError\<close> on \<^verbatim>\<open>null\<close>, any other value that is
  not an object is returned as it is, and an object has its prototype replaced.
\<close>

definition Object_setPrototypeOf :: "jsval \<Rightarrow> prototype \<Rightarrow> json_error + jsval" where
  "Object_setPrototypeOf obj proto =
     (case obj of
        JNull \<Rightarrow> Inl TypeError
      | JArr p xs \<Rightarrow> Inr (JArr proto xs)
      | JObj p ps \<Rightarrow> Inr (JObj proto ps)
      | _ \<Rightarrow> Inr obj)"

subsection \<open>The two functions of the source\<close>


definition fromJSON :: "prototype \<Rightarrow> string \<Rightarrow> (json_error + jsval) option" where
  "fromJSON proto json =
     (case JSON_parse json of
        None \<Rightarrow> None
      | Some (Inl err) \<Rightarrow> Some (Inl err)
      | Some (Inr v) \<Rightarrow> Some (Object_setPrototypeOf v proto))"






section \<open>The selector builder: data\<close>

text \<open>
  An item is the object literal \<^verbatim>\<open>{ type, value }\<close>. The source never writes to an item
  after creating it, so items are values. The type strings that occur are the six keys
  of the order table and \<^verbatim>\<open>'combinator'\<close>.
\<close>

datatype kind = Element | Id | Class | Attr | PseudoClass | PseudoElement | Combinator

record item =
  item_type :: kind
  item_value :: string

record touched_flags =
  touched_element :: bool
  touched_id :: bool
  touched_pseudoElement :: bool

text \<open>
  A \<^verbatim>\<open>Selector\<close> object holds a reference to its \<^verbatim>\<open>items\<close> array and its \<^verbatim>\<open>touched\<close>
  flags. The \<^verbatim>\<open>order\<close> field is the same constant table in every instance and is never
  written, so it is the constant \<open>order\<close> below.
\<close>

type_synonym ref = nat

record Selector =
  items :: ref
  touched :: touched_flags

text \<open>
  The store: \<^verbatim>\<open>Selector\<close> objects and arrays by address, with the next free address of
  each. Methods mutate the object and the array they are called on in place.
\<close>

record heap =
  objects :: "ref \<Rightarrow> Selector"
  arrays :: "ref \<Rightarrow> item list"
  lim_obj :: ref
  lim_arr :: ref

definition empty_heap :: heap where
  "empty_heap =
     \<lparr>objects = (\<lambda>_. \<lparr>items = 0, touched = \<lparr>touched_element = False, touched_id = False, touched_pseudoElement = False\<rparr>\<rparr>),
      arrays = (\<lambda>_. []), lim_obj = 0, lim_arr = 0\<rparr>"

text \<open>
  Both \<^verbatim>\<open>throw new Error(...)\<close> sites of the source raise the same class with different
  messages; the two messages are the two errors.
\<close>

datatype error = DuplicateSelectorPartError | SelectorOrderError

definition message :: "error \<Rightarrow> string" where
  "message e = (case e of
      DuplicateSelectorPartError \<Rightarrow>
        ''Element, id and pseudo-element should not occur more then one time inside the selector''
    | SelectorOrderError \<Rightarrow>
        ''Selector parts should be arranged in the following order: element, id, class, attribute, pseudo-class, pseudo-element'')"

text \<open>\<^verbatim>\<open>this.order[t]\<close>: \<open>None\<close> is \<^verbatim>\<open>undefined\<close>, the result for \<^verbatim>\<open>'combinator'\<close>.\<close>

definition order :: "kind \<Rightarrow> nat option" where
  "order t = (case t of
      Element \<Rightarrow> Some 1 | Id \<Rightarrow> Some 2 | Class \<Rightarrow> Some 3 | Attr \<Rightarrow> Some 4
    | PseudoClass \<Rightarrow> Some 5 | PseudoElement \<Rightarrow> Some 6 | Combinator \<Rightarrow> None)"

text \<open>JavaScript's \<^verbatim>\<open>>\<close> on these values: a comparison with \<^verbatim>\<open>undefined\<close> is false.\<close>

definition js_gt :: "nat option \<Rightarrow> nat option \<Rightarrow> bool" where
  "js_gt a b = (case (a, b) of (Some x, Some y) \<Rightarrow> x > y | _ \<Rightarrow> False)"

abbreviation items_of :: "heap \<Rightarrow> ref \<Rightarrow> item list" where
  "items_of h this \<equiv> arrays h (items (objects h this))"


section \<open>The selector builder: operations\<close>

text \<open>An array literal that escapes is a new array in the store.\<close>

definition new_array :: "item list \<Rightarrow> heap \<Rightarrow> ref \<times> heap" where
  "new_array xs h = (lim_arr h, h\<lparr>arrays := (arrays h)(lim_arr h := xs), lim_arr := Suc (lim_arr h)\<rparr>)"

text \<open>
  \<^verbatim>\<open>new Selector(items)\<close>: \<^verbatim>\<open>this.items = items || []\<close> keeps the array passed in (an
  array is truthy) and creates a new empty one when the argument is missing.
\<close>

definition new_Selector :: "ref option \<Rightarrow> heap \<Rightarrow> ref \<times> heap" where
  "new_Selector items_arg h =
     (let (a, h1) = (case items_arg of Some a \<Rightarrow> (a, h) | None \<Rightarrow> new_array [] h);
          this = lim_obj h1
      in (this,
          h1\<lparr>objects := (objects h1)(this :=
                \<lparr>items = a, touched = \<lparr>touched_element = False, touched_id = False, touched_pseudoElement = False\<rparr>\<rparr>),
             lim_obj := Suc this\<rparr>))"

text \<open>
  \<^verbatim>\<open>checkOrder(orderType)\<close>: \<^verbatim>\<open>Array.prototype.find\<close> returns the first item satisfying
  the callback, an object and therefore truthy, or \<^verbatim>\<open>undefined\<close>.
\<close>

definition checkOrder :: "ref \<Rightarrow> kind \<Rightarrow> heap \<Rightarrow> error + unit" where
  "checkOrder this orderType h =
     (if find (\<lambda>item. js_gt (order (item_type item)) (order orderType)) (items_of h this) \<noteq> None
      then Inl SelectorOrderError else Inr ())"

text \<open>\<^verbatim>\<open>this.items.push(x)\<close>: the array that \<^verbatim>\<open>this.items\<close> refers to grows by one.\<close>

definition push :: "ref \<Rightarrow> item \<Rightarrow> heap \<Rightarrow> heap" where
  "push this x h = h\<lparr>arrays := (arrays h)(items (objects h this) := items_of h this @ [x])\<rparr>"

definition set_touched :: "ref \<Rightarrow> (touched_flags \<Rightarrow> touched_flags) \<Rightarrow> heap \<Rightarrow> heap" where
  "set_touched this f h = h\<lparr>objects := (objects h)(this := (objects h this)\<lparr>touched := f (touched (objects h this))\<rparr>)\<rparr>"

text \<open>
  The six append methods. Each returns the raised error or \<^verbatim>\<open>this\<close>, together with the
  store after the call.
\<close>

definition Selector_element :: "ref \<Rightarrow> string \<Rightarrow> heap \<Rightarrow> (error + ref) \<times> heap" where
  "Selector_element this v h =
     (if touched_element (touched (objects h this)) then (Inl DuplicateSelectorPartError, h)
      else case checkOrder this Element h of
        Inl e \<Rightarrow> (Inl e, h)
      | Inr _ \<Rightarrow>
          (let h1 = set_touched this (\<lambda>t. t\<lparr>touched_element := True\<rparr>) h;
               h2 = push this \<lparr>item_type = Element, item_value = v\<rparr> h1
           in (Inr this, h2)))"

definition Selector_id :: "ref \<Rightarrow> string \<Rightarrow> heap \<Rightarrow> (error + ref) \<times> heap" where
  "Selector_id this v h =
     (if touched_id (touched (objects h this)) then (Inl DuplicateSelectorPartError, h)
      else case checkOrder this Id h of
        Inl e \<Rightarrow> (Inl e, h)
      | Inr _ \<Rightarrow>
          (let h1 = set_touched this (\<lambda>t. t\<lparr>touched_id := True\<rparr>) h;
               h2 = push this \<lparr>item_type = Id, item_value = ''#'' @ v\<rparr> h1
           in (Inr this, h2)))"

definition Selector_class :: "ref \<Rightarrow> string \<Rightarrow> heap \<Rightarrow> (error + ref) \<times> heap" where
  "Selector_class this v h =
     (case checkOrder this Class h of
        Inl e \<Rightarrow> (Inl e, h)
      | Inr _ \<Rightarrow> (Inr this, push this \<lparr>item_type = Class, item_value = ''.'' @ v\<rparr> h))"

definition Selector_attr :: "ref \<Rightarrow> string \<Rightarrow> heap \<Rightarrow> (error + ref) \<times> heap" where
  "Selector_attr this v h =
     (case checkOrder this Attr h of
        Inl e \<Rightarrow> (Inl e, h)
      | Inr _ \<Rightarrow> (Inr this, push this \<lparr>item_type = Attr, item_value = ''['' @ v @ '']''\<rparr> h))"

definition Selector_pseudoClass :: "ref \<Rightarrow> string \<Rightarrow> heap \<Rightarrow> (error + ref) \<times> heap" where
  "Selector_pseudoClass this v h =
     (case checkOrder this PseudoClass h of
        Inl e \<Rightarrow> (Inl e, h)
      | Inr _ \<Rightarrow> (Inr this, push this \<lparr>item_type = PseudoClass, item_value = '':'' @ v\<rparr> h))"

definition Selector_pseudoElement :: "ref \<Rightarrow> string \<Rightarrow> heap \<Rightarrow> (error + ref) \<times> heap" where
  "Selector_pseudoElement this v h =
     (if touched_pseudoElement (touched (objects h this)) then (Inl DuplicateSelectorPartError, h)
      else case checkOrder this PseudoElement h of
        Inl e \<Rightarrow> (Inl e, h)
      | Inr _ \<Rightarrow>
          (let h1 = set_touched this (\<lambda>t. t\<lparr>touched_pseudoElement := True\<rparr>) h;
               h2 = push this \<lparr>item_type = PseudoElement, item_value = ''::'' @ v\<rparr> h1
           in (Inr this, h2)))"

text \<open>
  \<^verbatim>\<open>stringify()\<close>: the copy made by \<^verbatim>\<open>[].concat(this.items)\<close> and the array made by
  \<^verbatim>\<open>map\<close> do not outlive the call; they are the list value computed here. \<^verbatim>\<open>join('')\<close>
  concatenates.
\<close>

definition Selector_stringify :: "ref \<Rightarrow> heap \<Rightarrow> string \<times> heap" where
  "Selector_stringify this h = (concat (map item_value ([] @ items_of h this)), h)"

text \<open>The facade \<^verbatim>\<open>cssSelectorBuilder\<close>: each entry creates a new \<^verbatim>\<open>Selector\<close>.\<close>

definition cssSelectorBuilder_element :: "string \<Rightarrow> heap \<Rightarrow> (error + ref) \<times> heap" where
  "cssSelectorBuilder_element v h = (let (s, h1) = new_Selector None h in Selector_element s v h1)"

definition cssSelectorBuilder_id :: "string \<Rightarrow> heap \<Rightarrow> (error + ref) \<times> heap" where
  "cssSelectorBuilder_id v h = (let (s, h1) = new_Selector None h in Selector_id s v h1)"

definition cssSelectorBuilder_class :: "string \<Rightarrow> heap \<Rightarrow> (error + ref) \<times> heap" where
  "cssSelectorBuilder_class v h = (let (s, h1) = new_Selector None h in Selector_class s v h1)"

definition cssSelectorBuilder_attr :: "string \<Rightarrow> heap \<Rightarrow> (error + ref) \<times> heap" where
  "cssSelectorBuilder_attr v h = (let (s, h1) = new_Selector None h in Selector_attr s v h1)"

definition cssSelectorBuilder_pseudoClass :: "string \<Rightarrow> heap \<Rightarrow> (error + ref) \<times> heap" where
  "cssSelectorBuilder_pseudoClass v h = (let (s, h1) = new_Selector None h in Selector_pseudoClass s v h1)"

definition cssSelectorBuilder_pseudoElement :: "string \<Rightarrow> heap \<Rightarrow> (error + ref) \<times> heap" where
  "cssSelectorBuilder_pseudoElement v h = (let (s, h1) = new_Selector None h in Selector_pseudoElement s v h1)"

definition cssSelectorBuilder_stringify :: "heap \<Rightarrow> string \<times> heap" where
  "cssSelectorBuilder_stringify h = (let (s, h1) = new_Selector None h in Selector_stringify s h1)"

text \<open>
  \<^verbatim>\<open>combine\<close>: \<^verbatim>\<open>[].concat(selector1.items, [combinator item], selector2.items)\<close> is a new
  array holding the elements of the three arrays, handed to \<^verbatim>\<open>new Selector\<close>.
\<close>

definition cssSelectorBuilder_combine :: "ref \<Rightarrow> string \<Rightarrow> ref \<Rightarrow> heap \<Rightarrow> ref \<times> heap" where
  "cssSelectorBuilder_combine selector1 combinator selector2 h =
     (let (a, h1) = new_array ([] @ items_of h selector1
                        @ [\<lparr>item_type = Combinator, item_value = '' '' @ combinator @ '' ''\<rparr>]
                        @ items_of h selector2) h
      in new_Selector (Some a) h1)"


section \<open>Calls and programs\<close>

text \<open>
  The six append methods and the six facade entries differ in the flag they test, the
  type they check and push, and the text they store. \<open>append_method\<close> names them so that a
  statement can range over all six.
\<close>

datatype append_method = M_element | M_id | M_class | M_attr | M_pseudoClass | M_pseudoElement

fun Selector_append :: "append_method \<Rightarrow> ref \<Rightarrow> string \<Rightarrow> heap \<Rightarrow> (error + ref) \<times> heap" where
  "Selector_append M_element = Selector_element"
| "Selector_append M_id = Selector_id"
| "Selector_append M_class = Selector_class"
| "Selector_append M_attr = Selector_attr"
| "Selector_append M_pseudoClass = Selector_pseudoClass"
| "Selector_append M_pseudoElement = Selector_pseudoElement"

fun cssSelectorBuilder_create :: "append_method \<Rightarrow> string \<Rightarrow> heap \<Rightarrow> (error + ref) \<times> heap" where
  "cssSelectorBuilder_create M_element = cssSelectorBuilder_element"
| "cssSelectorBuilder_create M_id = cssSelectorBuilder_id"
| "cssSelectorBuilder_create M_class = cssSelectorBuilder_class"
| "cssSelectorBuilder_create M_attr = cssSelectorBuilder_attr"
| "cssSelectorBuilder_create M_pseudoClass = cssSelectorBuilder_pseudoClass"
| "cssSelectorBuilder_create M_pseudoElement = cssSelectorBuilder_pseudoElement"

fun method_type :: "append_method \<Rightarrow> kind" where
  "method_type M_element = Element"
| "method_type M_id = Id"
| "method_type M_class = Class"
| "method_type M_attr = Attr"
| "method_type M_pseudoClass = PseudoClass"
| "method_type M_pseudoElement = PseudoElement"

fun method_text :: "append_method \<Rightarrow> string \<Rightarrow> string" where
  "method_text M_element v = v"
| "method_text M_id v = ''#'' @ v"
| "method_text M_class v = ''.'' @ v"
| "method_text M_attr v = ''['' @ v @ '']''"
| "method_text M_pseudoClass v = '':'' @ v"
| "method_text M_pseudoElement v = ''::'' @ v"

fun is_touched :: "append_method \<Rightarrow> touched_flags \<Rightarrow> bool" where
  "is_touched M_element t = touched_element t"
| "is_touched M_id t = touched_id t"
| "is_touched M_pseudoElement t = touched_pseudoElement t"
| "is_touched _ t = False"

fun mark_touched :: "append_method \<Rightarrow> touched_flags \<Rightarrow> touched_flags" where
  "mark_touched M_element t = t\<lparr>touched_element := True\<rparr>"
| "mark_touched M_id t = t\<lparr>touched_id := True\<rparr>"
| "mark_touched M_pseudoElement t = t\<lparr>touched_pseudoElement := True\<rparr>"
| "mark_touched _ t = t"

text \<open>
  A client program is a list of calls on the facade and on the builders it has obtained.
  A call that throws leaves the client running (the error is caught), so the calls after
  it are still made; a program that stops at the first error is a prefix of such a list.
\<close>

datatype call =
    Create append_method string
  | CreateStringify
  | Append ref append_method string
  | Stringify ref
  | Combine ref string ref

datatype val = Builder ref | Text string

fun exec :: "call \<Rightarrow> heap \<Rightarrow> (error + val) \<times> heap" where
  "exec (Create m v) h = (let (r, h1) = cssSelectorBuilder_create m v h in (map_sum (\<lambda>e. e) Builder r, h1))"
| "exec CreateStringify h = (let (s, h1) = cssSelectorBuilder_stringify h in (Inr (Text s), h1))"
| "exec (Append this m v) h = (let (r, h1) = Selector_append m this v h in (map_sum (\<lambda>e. e) Builder r, h1))"
| "exec (Stringify this) h = (let (s, h1) = Selector_stringify this h in (Inr (Text s), h1))"
| "exec (Combine a t b) h = (let (c, h1) = cssSelectorBuilder_combine a t b h in (Inr (Builder c), h1))"

text \<open>A call can only name builders that exist when it is made.\<close>

fun in_scope :: "call \<Rightarrow> heap \<Rightarrow> bool" where
  "in_scope (Append this m v) h = (this < lim_obj h)"
| "in_scope (Stringify this) h = (this < lim_obj h)"
| "in_scope (Combine a t b) h = (a < lim_obj h \<and> b < lim_obj h)"
| "in_scope _ h = True"

fun run :: "call list \<Rightarrow> heap \<Rightarrow> heap" where
  "run [] h = h"
| "run (c # cs) h = run cs (snd (exec c h))"

fun valid :: "call list \<Rightarrow> heap \<Rightarrow> bool" where
  "valid [] h = True"
| "valid (c # cs) h = (in_scope c h \<and> valid cs (snd (exec c h)))"


section \<open>The properties, in the words of the specification\<close>

text \<open>
  The rank order \<open>element(1) < id(2) < class(3) < attribute(4) < pseudoClass(5) <
  pseudoElement(6)\<close>. A combinator carries no rank; every use below excludes combinator
  fragments before it reads a rank, so the value given here for \<open>Combinator\<close> is never
  used.
\<close>

fun rank :: "kind \<Rightarrow> nat" where
  "rank Element = 1"
| "rank Id = 2"
| "rank Class = 3"
| "rank Attr = 4"
| "rank PseudoClass = 5"
| "rank PseudoElement = 6"
| "rank Combinator = 0"

text \<open>Some fragment, combinators excluded, has a rank strictly greater than that of \<open>K\<close>.\<close>

definition higher_rank_present :: "item list \<Rightarrow> kind \<Rightarrow> bool" where
  "higher_rank_present xs K = list_ex (\<lambda>x. item_type x \<noteq> Combinator \<and> rank (item_type x) > rank K) xs"

text \<open>The kinds of the non-combinator fragments, left to right, and their ranks.\<close>

definition part_ranks :: "item list \<Rightarrow> nat list" where
  "part_ranks xs = map rank (filter (\<lambda>t. t \<noteq> Combinator) (map item_type xs))"

definition rank_ordered :: "item list \<Rightarrow> bool" where
  "rank_ordered xs = sorted (part_ranks xs)"

definition occurrences :: "kind \<Rightarrow> item list \<Rightarrow> nat" where
  "occurrences K xs = length (filter (\<lambda>x. item_type x = K) xs)"

definition singletons_once :: "item list \<Rightarrow> bool" where
  "singletons_once xs = (occurrences Element xs \<le> 1 \<and> occurrences Id xs \<le> 1 \<and> occurrences PseudoElement xs \<le> 1)"

definition has_combinator :: "item list \<Rightarrow> bool" where
  "has_combinator xs = list_ex (\<lambda>x. item_type x = Combinator) xs"


text \<open>
  ``A fragment of kind \<open>m\<close> was already appended on this builder via that operation'': some
  call of the program was an invocation of operation \<open>m\<close>, on the builder or through the
  facade entry of the same name, that returned the builder \<open>this\<close> and left the sequence
  of \<open>this\<close> one fragment longer, the new last fragment being the one that operation
  \<open>m\<close> makes of its argument.
\<close>

definition appends_here :: "call \<Rightarrow> heap \<Rightarrow> ref \<Rightarrow> append_method \<Rightarrow> bool" where
  "appends_here c h this m =
     (fst (exec c h) = Inr (Builder this) \<and>
      (case c of
         Create m' v \<Rightarrow>
           m' = m \<and> items_of (snd (exec c h)) this = [\<lparr>item_type = method_type m, item_value = method_text m v\<rparr>]
       | Append r m' v \<Rightarrow>
           m' = m \<and> items_of (snd (exec c h)) this
                     = items_of h this @ [\<lparr>item_type = method_type m, item_value = method_text m v\<rparr>]
       | _ \<Rightarrow> False))"

fun appended_via :: "call list \<Rightarrow> heap \<Rightarrow> ref \<Rightarrow> append_method \<Rightarrow> bool" where
  "appended_via [] h this m = False"
| "appended_via (c # cs) h this m = (appends_here c h this m \<or> appended_via cs (snd (exec c h)) this m)"

text \<open>The builder a call appends to, if it is a method call of one of the six appends.\<close>

fun append_target :: "call \<Rightarrow> ref option" where
  "append_target (Append this m v) = Some this"
| "append_target _ = None"

text \<open>
  The shape of every store a program can reach: each builder's array exists, and no two
  builders refer to the same array.
\<close>

definition wf_heap :: "heap \<Rightarrow> bool" where
  "wf_heap h =
     ((\<forall>r < lim_obj h. items (objects h r) < lim_arr h) \<and>
      (\<forall>r < lim_obj h. \<forall>r' < lim_obj h. items (objects h r) = items (objects h r') \<longrightarrow> r = r'))"

text \<open>
  A new builder with a new array: what every facade entry and \<^verbatim>\<open>combine\<close> come to.
\<close>

definition alloc :: "item list \<Rightarrow> touched_flags \<Rightarrow> heap \<Rightarrow> heap" where
  "alloc xs t h =
     h\<lparr>objects := (objects h)(lim_obj h := \<lparr>items = lim_arr h, touched = t\<rparr>),
       arrays := (arrays h)(lim_arr h := xs),
       lim_obj := Suc (lim_obj h), lim_arr := Suc (lim_arr h)\<rparr>"

definition untouched :: touched_flags where
  "untouched = \<lparr>touched_element = False, touched_id = False, touched_pseudoElement = False\<rparr>"


text \<open>
  What holds of a builder that no \<^verbatim>\<open>combine\<close> produced: the ranks are in order, each of
  element, id and pseudoElement occurs at most once, and where one occurs its flag is set.
\<close>

definition part_inv :: "item list \<Rightarrow> touched_flags \<Rightarrow> bool" where
  "part_inv xs t =
     (\<not> has_combinator xs \<longrightarrow>
        rank_ordered xs \<and>
        (\<forall>m \<in> {M_element, M_id, M_pseudoElement}.
           occurrences (method_type m) xs \<le> 1 \<and> (0 < occurrences (method_type m) xs \<longrightarrow> is_touched m t)))"

definition heap_inv :: "heap \<Rightarrow> bool" where
  "heap_inv h = (wf_heap h \<and> (\<forall>r < lim_obj h. part_inv (items_of h r) (touched (objects h r))))"


section \<open>What an append does\<close>

lemma find_list_ex: "(find P xs \<noteq> None) = list_ex P xs"
  by (induction xs) auto

lemma js_gt_order: "js_gt (order t) (order (method_type m)) = (t \<noteq> Combinator \<and> rank t > rank (method_type m))"
  by (cases t; cases m) (simp_all add: js_gt_def order_def)

lemma checkOrder_eq:
  "checkOrder this (method_type m) h =
     (if higher_rank_present (items_of h this) (method_type m) then Inl SelectorOrderError else Inr ())"
  unfolding checkOrder_def find_list_ex js_gt_order higher_rank_present_def by simp

text \<open>All six methods are one scheme: duplicate test, order test, flag, push.\<close>

lemma Selector_append_eq:
  "Selector_append m this v h =
     (if is_touched m (touched (objects h this)) then (Inl DuplicateSelectorPartError, h)
      else if higher_rank_present (items_of h this) (method_type m) then (Inl SelectorOrderError, h)
      else (Inr this,
            h\<lparr>objects := (objects h)(this := (objects h this)\<lparr>touched := mark_touched m (touched (objects h this))\<rparr>),
              arrays := (arrays h)(items (objects h this) :=
                 items_of h this @ [\<lparr>item_type = method_type m, item_value = method_text m v\<rparr>])\<rparr>))"
proof (cases m)
  case M_element
  then show ?thesis
    using checkOrder_eq [of this M_element h]
    by (simp add: Selector_element_def push_def set_touched_def Let_def)
next
  case M_id
  then show ?thesis
    using checkOrder_eq [of this M_id h]
    by (simp add: Selector_id_def push_def set_touched_def Let_def)
next
  case M_class
  then show ?thesis
    using checkOrder_eq [of this M_class h]
    by (simp add: Selector_class_def push_def)
next
  case M_attr
  then show ?thesis
    using checkOrder_eq [of this M_attr h]
    by (simp add: Selector_attr_def push_def)
next
  case M_pseudoClass
  then show ?thesis
    using checkOrder_eq [of this M_pseudoClass h]
    by (simp add: Selector_pseudoClass_def push_def)
next
  case M_pseudoElement
  then show ?thesis
    using checkOrder_eq [of this M_pseudoElement h]
    by (simp add: Selector_pseudoElement_def push_def set_touched_def Let_def)
qed

lemma new_Selector_None_eq:
  "new_Selector None h =
     (lim_obj h,
      h\<lparr>arrays := (arrays h)(lim_arr h := []), lim_arr := Suc (lim_arr h),
        objects := (objects h)(lim_obj h :=
           \<lparr>items = lim_arr h, touched = \<lparr>touched_element = False, touched_id = False, touched_pseudoElement = False\<rparr>\<rparr>),
        lim_obj := Suc (lim_obj h)\<rparr>)"
  by (simp add: new_Selector_def new_array_def Let_def)

lemma cssSelectorBuilder_create_eq:
  "cssSelectorBuilder_create m v h = Selector_append m (lim_obj h) v (snd (new_Selector None h))"
  by (cases m)
    (simp_all add: cssSelectorBuilder_element_def cssSelectorBuilder_id_def cssSelectorBuilder_class_def
      cssSelectorBuilder_attr_def cssSelectorBuilder_pseudoClass_def cssSelectorBuilder_pseudoElement_def
      new_Selector_None_eq Let_def)

section \<open>The claim about Rectangle\<close>

lemma constructions_Cons:
  "constructions ((w, h) # args) proto =
     (fst (Rectangle w h proto) # fst (constructions args (snd (Rectangle w h proto))),
      snd (constructions args (snd (Rectangle w h proto))))"
  by (simp add: Let_def case_prod_beta)

lemma constructions_fields:
  "i < length args \<Longrightarrow>
   width (fst (constructions args proto) ! i) = fst (args ! i) \<and>
   height (fst (constructions args proto) ! i) = snd (args ! i)"
proof (induction args arbitrary: proto i)
  case Nil
  then show ?case by simp
next
  case (Cons a args)
  obtain w h where a: "a = (w, h)" by (cases a)
  show ?case
  proof (cases i)
    case 0
    then show ?thesis by (simp only: a constructions_Cons) (simp add: Rectangle_def)
  next
    case (Suc j)
    with Cons.prems have "j < length args" by simp
    from Cons.IH [OF this, of "snd (Rectangle w h proto)"] Suc
    show ?thesis by (simp only: a constructions_Cons) simp
  qed
qed

lemma constructions_prototype:
  "args \<noteq> [] \<Longrightarrow> snd (constructions args proto) = Some (GetArea_closure (fst (last args)) (snd (last args)))"
proof (induction args arbitrary: proto)
  case Nil
  then show ?case by simp
next
  case (Cons a args)
  obtain w h where a: "a = (w, h)" by (cases a)
  show ?case
  proof (cases "args = []")
    case True
    then show ?thesis by (simp add: a Rectangle_def)
  next
    case False
    from Cons.IH [OF False, of "snd (Rectangle w h proto)"] False
    show ?thesis by (simp only: a constructions_Cons) simp
  qed
qed

text \<open>
  Claim C10. Every construction overwrites \<^verbatim>\<open>Rectangle.prototype.getArea\<close> with a closure
  over its own arguments. After any non-empty run of constructions, \<^verbatim>\<open>getArea()\<close> on any
  of the instances returns the product of the arguments of the last construction, while
  the instance's \<open>width\<close> and \<open>height\<close> fields are still its own arguments. After
  \<^verbatim>\<open>r1 = new Rectangle(10,20)\<close> and \<^verbatim>\<open>r2 = new Rectangle(3,4)\<close>, \<^verbatim>\<open>r1.getArea()\<close> is 12 and
  \<^verbatim>\<open>r1.width\<close>, \<^verbatim>\<open>r1.height\<close> are 10 and 20.
\<close>

theorem Rectangle_getArea_most_recent:
  fixes args :: "('n::times \<times> 'n) list"
  assumes "i < length args"
  shows "getArea (fst (constructions args proto) ! i) (snd (constructions args proto))
           = Some (fst (last args) * snd (last args))
         \<and> width (fst (constructions args proto) ! i) = fst (args ! i)
         \<and> height (fst (constructions args proto) ! i) = snd (args ! i)"
proof -
  from assms have ne: "args \<noteq> []" by auto
  show ?thesis
    using constructions_prototype [OF ne, of proto] constructions_fields [OF assms, of proto]
    by (simp add: getArea_def)
qed

theorem Rectangle_getArea_most_recent_witness:
  "(0::nat) < length [(10::int, 20::int), (3, 4)]
   \<and> getArea (fst (constructions [(10::int, 20), (3, 4)] None) ! 0) (snd (constructions [(10::int, 20), (3, 4)] None)) = Some 12
   \<and> width (fst (constructions [(10::int, 20), (3, 4)] None) ! 0) = 10
   \<and> height (fst (constructions [(10::int, 20), (3, 4)] None) ! 0) = 20"
  using Rectangle_getArea_most_recent [of 0 "[(10::int, 20), (3, 4)]" None] by simp


section \<open>Evaluating concrete programs\<close>

text \<open>The definitions that the simplifier unfolds to run a concrete program.\<close>

lemmas Selector_defs =
  Selector_element_def Selector_id_def Selector_class_def Selector_attr_def
  Selector_pseudoClass_def Selector_pseudoElement_def Selector_stringify_def
  checkOrder_def push_def set_touched_def order_def js_gt_def

lemmas cssSelectorBuilder_defs =
  cssSelectorBuilder_element_def cssSelectorBuilder_id_def cssSelectorBuilder_class_def
  cssSelectorBuilder_attr_def cssSelectorBuilder_pseudoClass_def cssSelectorBuilder_pseudoElement_def
  cssSelectorBuilder_stringify_def cssSelectorBuilder_combine_def
  new_Selector_def new_array_def empty_heap_def Let_def

lemmas run_defs = Selector_defs cssSelectorBuilder_defs
  has_combinator_def rank_ordered_def part_ranks_def occurrences_def singletons_once_def


section \<open>Claims about single appends\<close>

text \<open>
  Claim C1, as amended. An append of kind \<open>K\<close> raises \<open>SelectorOrderError\<close> exactly when
  its duplicate test does not fire (\<open>K\<close> is class, attr or pseudoClass, or the touched flag
  of \<open>K\<close> is unset) and some fragment of the sequence, combinators excluded, has a rank
  strictly greater than that of \<open>K\<close>. In particular \<^verbatim>\<open>id(...)\<close> called on the builder that
  the facade's \<^verbatim>\<open>class(...)\<close> returned raises \<open>SelectorOrderError\<close>.
\<close>

theorem order_error_iff:
  "(fst (Selector_append m this v h) = Inl SelectorOrderError
      \<longleftrightarrow> \<not> is_touched m (touched (objects h this))
          \<and> higher_rank_present (items_of h this) (method_type m))
   \<and> fst (Selector_id (lim_obj h) w (snd (cssSelectorBuilder_class u h))) = Inl SelectorOrderError"
proof -
  have "fst (Selector_append M_id (lim_obj h) w (snd (cssSelectorBuilder_create M_class u h))) = Inl SelectorOrderError"
    by (simp del: Selector_append.simps cssSelectorBuilder_create.simps
        add: cssSelectorBuilder_create_eq new_Selector_None_eq Selector_append_eq higher_rank_present_def)
  then show ?thesis
    by (simp add: Selector_append_eq)
qed

theorem order_error_iff_witness:
  "(fst (Selector_append M_attr 0 ''href'' (snd (cssSelectorBuilder_pseudoClass ''focus'' empty_heap))) = Inl SelectorOrderError
      \<longleftrightarrow> \<not> is_touched M_attr (touched (objects (snd (cssSelectorBuilder_pseudoClass ''focus'' empty_heap)) 0))
          \<and> higher_rank_present (items_of (snd (cssSelectorBuilder_pseudoClass ''focus'' empty_heap)) 0) (method_type M_attr))
   \<and> fst (Selector_append M_attr 0 ''href'' (snd (cssSelectorBuilder_pseudoClass ''focus'' empty_heap))) = Inl SelectorOrderError
   \<and> fst (Selector_id 0 ''main'' (snd (cssSelectorBuilder_class ''container'' empty_heap))) = Inl SelectorOrderError"
  using order_error_iff [where m = M_attr and this = 0 and v = "''href''"
      and h = "snd (cssSelectorBuilder_pseudoClass ''focus'' empty_heap)" and w = "''main''" and u = "''container''"]
  by (simp add: Selector_defs cssSelectorBuilder_defs higher_rank_present_def)

text \<open>
  The claim without the condition on the duplicate test fails: after
  \<^verbatim>\<open>element('a').class('x')\<close> the sequence holds a class fragment, whose rank 3 exceeds the
  rank 1 of element, and \<^verbatim>\<open>element('b')\<close> raises \<open>DuplicateSelectorPartError\<close>, since the
  flag is tested before the order.
\<close>

theorem order_error_counterexample:
  "higher_rank_present (items_of (snd (Selector_class 0 ''x'' (snd (cssSelectorBuilder_element ''a'' empty_heap)))) 0) Element
   \<and> fst (Selector_element 0 ''b'' (snd (Selector_class 0 ''x'' (snd (cssSelectorBuilder_element ''a'' empty_heap)))))
       = Inl DuplicateSelectorPartError
   \<and> fst (Selector_element 0 ''b'' (snd (Selector_class 0 ''x'' (snd (cssSelectorBuilder_element ''a'' empty_heap)))))
       \<noteq> Inl SelectorOrderError"
  by (simp add: Selector_defs cssSelectorBuilder_defs higher_rank_present_def)

text \<open>
  Claim C5. An append that raises either error leaves the whole store as it was, and so
  the fragment sequence and the touched flags of the builder it was called on.
\<close>

theorem append_atomic:
  assumes "fst (Selector_append m this v h) = Inl e"
  shows "snd (Selector_append m this v h) = h
         \<and> items_of (snd (Selector_append m this v h)) this = items_of h this
         \<and> touched (objects (snd (Selector_append m this v h)) this) = touched (objects h this)"
proof -
  from assms have "snd (Selector_append m this v h) = h"
    by (simp add: Selector_append_eq split: if_splits)
  then show ?thesis by simp
qed

theorem append_atomic_witness:
  "fst (Selector_append M_element 0 ''b'' (snd (cssSelectorBuilder_element ''a'' empty_heap))) = Inl DuplicateSelectorPartError
   \<and> snd (Selector_append M_element 0 ''b'' (snd (cssSelectorBuilder_element ''a'' empty_heap)))
       = snd (cssSelectorBuilder_element ''a'' empty_heap)
   \<and> map item_value (items_of (snd (Selector_append M_element 0 ''b'' (snd (cssSelectorBuilder_element ''a'' empty_heap)))) 0)
       = [''a'']"
proof -
  have e: "fst (Selector_append M_element 0 ''b'' (snd (cssSelectorBuilder_element ''a'' empty_heap))) = Inl DuplicateSelectorPartError"
    by (simp add: Selector_defs cssSelectorBuilder_defs)
  have i: "map item_value (items_of (snd (cssSelectorBuilder_element ''a'' empty_heap)) 0) = [''a'']"
    by (simp add: Selector_defs cssSelectorBuilder_defs)
  from append_atomic [OF e] e i show ?thesis by simp
qed

text \<open>
  Claim C8. \<^verbatim>\<open>stringify()\<close> returns the texts of the fragments concatenated in sequence
  order with nothing between them and leaves the store as it was, so a second call
  returns the same string; on a builder with no fragments, on a builder just created
  with no argument, and for the facade's \<^verbatim>\<open>stringify()\<close>, the result is the empty string.
\<close>

theorem stringify_concat:
  "Selector_stringify this h = (concat (map item_value (items_of h this)), h)
   \<and> Selector_stringify this (snd (Selector_stringify this h)) = Selector_stringify this h
   \<and> (items_of h this = [] \<longrightarrow> fst (Selector_stringify this h) = '''')
   \<and> fst (Selector_stringify (fst (new_Selector None h)) (snd (new_Selector None h))) = ''''
   \<and> fst (cssSelectorBuilder_stringify h) = ''''"
  by (simp add: Selector_stringify_def cssSelectorBuilder_stringify_def new_Selector_None_eq)

theorem stringify_concat_witness:
  "Selector_stringify 0 (run [Create M_class ''x'', Append 0 M_class ''y''] empty_heap)
     = (''.x.y'', run [Create M_class ''x'', Append 0 M_class ''y''] empty_heap)
   \<and> items_of empty_heap 0 = [] \<and> fst (Selector_stringify 0 empty_heap) = ''''
   \<and> fst (cssSelectorBuilder_stringify empty_heap) = ''''"
proof -
  have i: "map item_value (items_of (run [Create M_class ''x'', Append 0 M_class ''y''] empty_heap) 0) = [''.x'', ''.y'']"
    by (simp add: Selector_defs cssSelectorBuilder_defs)
  have e: "items_of empty_heap 0 = []"
    by (simp add: empty_heap_def)
  from stringify_concat [of 0 "run [Create M_class ''x'', Append 0 M_class ''y''] empty_heap"]
    stringify_concat [of 0 empty_heap] i e
  show ?thesis by simp
qed

text \<open>
  Claim C6. \<^verbatim>\<open>combine(A, t, B)\<close> always returns, whatever the two sequences hold: no
  order or duplicate test stands on its path. The builder it returns is at a new
  address with a new array, its flags are unset, and its sequence is the fragments of
  \<open>A\<close>, then one combinator fragment with text \<open>" " + t + " "\<close>, then the fragments of \<open>B\<close>.
  \<^verbatim>\<open>combine(element('div').id('main'), '+', element('table').id('data')).stringify()\<close> is
  \<^verbatim>\<open>'div#main + table#data'\<close>.
\<close>

theorem combine_concat:
  "fst (cssSelectorBuilder_combine a t b h) = lim_obj h
   \<and> lim_obj (snd (cssSelectorBuilder_combine a t b h)) = Suc (lim_obj h)
   \<and> items (objects (snd (cssSelectorBuilder_combine a t b h)) (lim_obj h)) = lim_arr h
   \<and> lim_arr (snd (cssSelectorBuilder_combine a t b h)) = Suc (lim_arr h)
   \<and> touched (objects (snd (cssSelectorBuilder_combine a t b h)) (lim_obj h))
       = \<lparr>touched_element = False, touched_id = False, touched_pseudoElement = False\<rparr>
   \<and> items_of (snd (cssSelectorBuilder_combine a t b h)) (fst (cssSelectorBuilder_combine a t b h))
       = items_of h a @ [\<lparr>item_type = Combinator, item_value = '' '' @ t @ '' ''\<rparr>] @ items_of h b
   \<and> fst (Selector_stringify
         (fst (cssSelectorBuilder_combine 0 ''+'' 1
            (run [Create M_element ''div'', Append 0 M_id ''main'',
                  Create M_element ''table'', Append 1 M_id ''data''] empty_heap)))
         (snd (cssSelectorBuilder_combine 0 ''+'' 1
            (run [Create M_element ''div'', Append 0 M_id ''main'',
                  Create M_element ''table'', Append 1 M_id ''data''] empty_heap))))
       = ''div#main + table#data''"
proof -
  have "fst (Selector_stringify
         (fst (cssSelectorBuilder_combine 0 ''+'' 1
            (run [Create M_element ''div'', Append 0 M_id ''main'',
                  Create M_element ''table'', Append 1 M_id ''data''] empty_heap)))
         (snd (cssSelectorBuilder_combine 0 ''+'' 1
            (run [Create M_element ''div'', Append 0 M_id ''main'',
                  Create M_element ''table'', Append 1 M_id ''data''] empty_heap))))
       = ''div#main + table#data''"
    by (simp add: Selector_defs cssSelectorBuilder_defs)
  then show ?thesis
    by (simp add: cssSelectorBuilder_combine_def new_Selector_def new_array_def Let_def)
qed

theorem combine_concat_witness:
  "map item_type (items_of (snd (cssSelectorBuilder_combine 0 ''>'' 0 (snd (cssSelectorBuilder_element ''p'' empty_heap)))) 1)
     = [Element, Combinator, Element]
   \<and> fst (Selector_stringify 1 (snd (cssSelectorBuilder_combine 0 ''>'' 0 (snd (cssSelectorBuilder_element ''p'' empty_heap)))))
     = ''p > p''"
  using combine_concat [of 0 "''>''" 0 "snd (cssSelectorBuilder_element ''p'' empty_heap)"]
  by (simp add: Selector_defs cssSelectorBuilder_defs)

section \<open>How calls change the store\<close>

subsection \<open>Allocation\<close>

lemma create_eq:
  "cssSelectorBuilder_create m v h =
     (Inr (lim_obj h), alloc [\<lparr>item_type = method_type m, item_value = method_text m v\<rparr>] (mark_touched m untouched) h)"
  by (cases m)
    (simp_all add: cssSelectorBuilder_create_eq new_Selector_None_eq Selector_append_eq
      higher_rank_present_def alloc_def untouched_def del: Selector_append.simps cssSelectorBuilder_create.simps)

lemma stringify_eq: "Selector_stringify this h = (concat (map item_value (items_of h this)), h)"
  by (simp add: Selector_stringify_def)

lemma create_stringify_eq: "cssSelectorBuilder_stringify h = ('''', alloc [] untouched h)"
  by (simp add: cssSelectorBuilder_stringify_def new_Selector_None_eq Selector_stringify_def alloc_def untouched_def)

lemma combine_eq:
  "cssSelectorBuilder_combine a t b h =
     (lim_obj h,
      alloc (items_of h a @ [\<lparr>item_type = Combinator, item_value = '' '' @ t @ '' ''\<rparr>] @ items_of h b) untouched h)"
  by (simp add: cssSelectorBuilder_combine_def new_Selector_def new_array_def Let_def alloc_def untouched_def)

lemma lim_obj_alloc: "lim_obj (alloc xs t h) = Suc (lim_obj h)"
  by (simp add: alloc_def)

lemma wf_heap_alloc: "wf_heap h \<Longrightarrow> wf_heap (alloc xs t h)"
  unfolding wf_heap_def alloc_def
  by (auto simp: less_Suc_eq)

lemma alloc_old_object: "r < lim_obj h \<Longrightarrow> objects (alloc xs t h) r = objects h r"
  by (simp add: alloc_def)

lemma alloc_old_array:
  "wf_heap h \<Longrightarrow> r < lim_obj h \<Longrightarrow> arrays (alloc xs t h) (items (objects h r)) = items_of h r"
  unfolding wf_heap_def alloc_def by auto

lemma alloc_new:
  "items_of (alloc xs t h) (lim_obj h) = xs \<and> touched (objects (alloc xs t h) (lim_obj h)) = t"
  by (simp add: alloc_def)

subsection \<open>Appends\<close>

lemma append_lims:
  "lim_obj (snd (Selector_append m this v h)) = lim_obj h \<and> lim_arr (snd (Selector_append m this v h)) = lim_arr h"
  by (simp add: Selector_append_eq)

lemma append_items_ref: "items (objects (snd (Selector_append m this v h)) r) = items (objects h r)"
  by (simp add: Selector_append_eq)

lemma wf_heap_append: "wf_heap h \<Longrightarrow> wf_heap (snd (Selector_append m this v h))"
  unfolding wf_heap_def by (simp add: append_lims append_items_ref)

lemma append_other_object: "r \<noteq> this \<Longrightarrow> objects (snd (Selector_append m this v h)) r = objects h r"
  by (simp add: Selector_append_eq)

lemma append_other_array:
  "wf_heap h \<Longrightarrow> this < lim_obj h \<Longrightarrow> r < lim_obj h \<Longrightarrow> r \<noteq> this \<Longrightarrow>
     arrays (snd (Selector_append m this v h)) (items (objects h r)) = items_of h r"
  unfolding wf_heap_def by (auto simp: Selector_append_eq)

subsection \<open>Calls\<close>

lemma exec_snd:
  "snd (exec c h) =
     (case c of
        Create m v \<Rightarrow> alloc [\<lparr>item_type = method_type m, item_value = method_text m v\<rparr>] (mark_touched m untouched) h
      | CreateStringify \<Rightarrow> alloc [] untouched h
      | Append this m v \<Rightarrow> snd (Selector_append m this v h)
      | Stringify this \<Rightarrow> h
      | Combine a t b \<Rightarrow>
          alloc (items_of h a @ [\<lparr>item_type = Combinator, item_value = '' '' @ t @ '' ''\<rparr>] @ items_of h b) untouched h)"
  by (cases c)
    (simp_all add: create_eq create_stringify_eq combine_eq stringify_eq case_prod_beta
      del: Selector_append.simps cssSelectorBuilder_create.simps)

lemma exec_wf: "wf_heap h \<Longrightarrow> wf_heap (snd (exec c h))"
  by (cases c) (simp_all add: exec_snd wf_heap_alloc wf_heap_append del: exec.simps)

lemma exec_lim_obj: "lim_obj h \<le> lim_obj (snd (exec c h))"
  by (cases c) (simp_all add: exec_snd lim_obj_alloc append_lims del: exec.simps)

lemma exec_frame_object:
  "in_scope c h \<Longrightarrow> r < lim_obj h \<Longrightarrow> append_target c \<noteq> Some r \<Longrightarrow>
     objects (snd (exec c h)) r = objects h r"
  by (cases c)
    (simp_all add: exec_snd alloc_old_object append_other_object del: exec.simps)

lemma exec_frame_array:
  "wf_heap h \<Longrightarrow> in_scope c h \<Longrightarrow> r < lim_obj h \<Longrightarrow> append_target c \<noteq> Some r \<Longrightarrow>
     arrays (snd (exec c h)) (items (objects h r)) = items_of h r"
  by (cases c)
    (simp_all add: exec_snd alloc_old_array append_other_array del: exec.simps)

lemma run_wf: "wf_heap h \<Longrightarrow> wf_heap (run cs h)"
  by (induction cs arbitrary: h) (simp_all add: exec_wf del: exec.simps)

lemma run_lim_obj: "lim_obj h \<le> lim_obj (run cs h)"
proof (induction cs arbitrary: h)
  case Nil
  then show ?case by simp
next
  case (Cons c cs)
  have "lim_obj h \<le> lim_obj (snd (exec c h))" by (rule exec_lim_obj)
  also have "\<dots> \<le> lim_obj (run cs (snd (exec c h)))" by (rule Cons.IH)
  finally show ?case by simp
qed

lemma run_frame:
  "wf_heap h \<Longrightarrow> valid cs h \<Longrightarrow> r < lim_obj h \<Longrightarrow> list_all (\<lambda>c. append_target c \<noteq> Some r) cs \<Longrightarrow>
     objects (run cs h) r = objects h r \<and> arrays (run cs h) (items (objects h r)) = items_of h r"
proof (induction cs arbitrary: h)
  case Nil
  then show ?case by simp
next
  case (Cons c cs)
  let ?h1 = "snd (exec c h)"
  from Cons.prems have o: "objects ?h1 r = objects h r"
    by (intro exec_frame_object) simp_all
  from Cons.prems have a: "arrays ?h1 (items (objects h r)) = items_of h r"
    by (intro exec_frame_array) simp_all
  have "r < lim_obj ?h1" using Cons.prems(3) exec_lim_obj [of h c] by simp
  with Cons.prems have
    "objects (run cs ?h1) r = objects ?h1 r \<and> arrays (run cs ?h1) (items (objects ?h1 r)) = items_of ?h1 r"
    by (intro Cons.IH exec_wf) simp_all
  with o a show ?case by simp
qed

lemma wf_heap_empty: "wf_heap empty_heap"
  by (simp add: wf_heap_def empty_heap_def)

section \<open>The invariant of uncombined builders\<close>

lemma method_type_not_Combinator: "method_type m \<noteq> Combinator"
  by (cases m) simp_all

lemma method_type_inj: "(method_type m = method_type m') = (m = m')"
  by (cases m; cases m') simp_all

lemma rank_ordered_append:
  assumes "rank_ordered xs" and "\<not> higher_rank_present xs (method_type m)"
  shows "rank_ordered (xs @ [\<lparr>item_type = method_type m, item_value = s\<rparr>])"
proof -
  from assms(2) have "\<forall>y \<in> set (part_ranks xs). y \<le> rank (method_type m)"
    by (auto simp: higher_rank_present_def part_ranks_def list_ex_iff not_less)
  with assms(1) show ?thesis
    by (simp add: rank_ordered_def part_ranks_def sorted_append method_type_not_Combinator)
qed

lemma occurrences_append:
  "occurrences K (xs @ [x]) = occurrences K xs + (if item_type x = K then 1 else 0)"
  by (simp add: occurrences_def)

lemma has_combinator_append:
  "has_combinator (xs @ [\<lparr>item_type = method_type m, item_value = s\<rparr>]) = has_combinator xs"
  by (simp add: has_combinator_def method_type_not_Combinator)

lemma is_touched_mark:
  "m' \<in> {M_element, M_id, M_pseudoElement} \<Longrightarrow> is_touched m' (mark_touched m t) = (m' = m \<or> is_touched m' t)"
  by (cases m; cases m') simp_all

lemma part_inv_empty: "part_inv [] untouched"
  by (simp add: part_inv_def rank_ordered_def part_ranks_def occurrences_def)

lemma part_inv_append:
  assumes inv: "part_inv xs t"
    and fresh: "\<not> is_touched m t"
    and ord: "\<not> higher_rank_present xs (method_type m)"
  shows "part_inv (xs @ [\<lparr>item_type = method_type m, item_value = s\<rparr>]) (mark_touched m t)"
  unfolding part_inv_def has_combinator_append
proof (intro impI conjI ballI)
  assume nc: "\<not> has_combinator xs"
  with inv have ro: "rank_ordered xs"
    and once: "\<And>m'. m' \<in> {M_element, M_id, M_pseudoElement} \<Longrightarrow>
        occurrences (method_type m') xs \<le> 1 \<and> (0 < occurrences (method_type m') xs \<longrightarrow> is_touched m' t)"
    by (auto simp: part_inv_def)
  from ro ord show "rank_ordered (xs @ [\<lparr>item_type = method_type m, item_value = s\<rparr>])"
    by (rule rank_ordered_append)
  fix m' assume m': "m' \<in> {M_element, M_id, M_pseudoElement}"
  show "occurrences (method_type m') (xs @ [\<lparr>item_type = method_type m, item_value = s\<rparr>]) \<le> 1"
  proof (cases "m' = m")
    case True
    with once [OF m'] fresh have "occurrences (method_type m') xs = 0" by auto
    then show ?thesis by (simp add: occurrences_append)
  next
    case False
    with once [OF m'] show ?thesis by (simp add: occurrences_append method_type_inj)
  qed
  assume "0 < occurrences (method_type m') (xs @ [\<lparr>item_type = method_type m, item_value = s\<rparr>])"
  with once [OF m'] show "is_touched m' (mark_touched m t)"
    by (auto simp: occurrences_append method_type_inj is_touched_mark [OF m'] split: if_splits)
qed

lemma part_inv_created:
  "part_inv [\<lparr>item_type = method_type m, item_value = s\<rparr>] (mark_touched m untouched)"
proof -
  have "\<not> is_touched m untouched" by (cases m) (simp_all add: untouched_def)
  moreover have "\<not> higher_rank_present [] (method_type m)" by (simp add: higher_rank_present_def)
  ultimately show ?thesis using part_inv_append [OF part_inv_empty, of m s] by simp
qed

lemma part_inv_combined:
  "part_inv (xs @ \<lparr>item_type = Combinator, item_value = s\<rparr> # ys) t"
  by (simp add: part_inv_def has_combinator_def)

lemma heap_inv_alloc:
  assumes "heap_inv h" and "part_inv xs t"
  shows "heap_inv (alloc xs t h)"
  unfolding heap_inv_def
proof (intro conjI allI impI)
  from assms(1) have wf: "wf_heap h" by (simp add: heap_inv_def)
  then show "wf_heap (alloc xs t h)" by (rule wf_heap_alloc)
  fix r assume "r < lim_obj (alloc xs t h)"
  then consider "r < lim_obj h" | "r = lim_obj h" by (auto simp: lim_obj_alloc elim: less_SucE)
  then show "part_inv (items_of (alloc xs t h) r) (touched (objects (alloc xs t h) r))"
  proof cases
    case 1
    with assms(1) have "part_inv (items_of h r) (touched (objects h r))" by (simp add: heap_inv_def)
    with 1 wf show ?thesis by (simp add: alloc_old_object alloc_old_array)
  next
    case 2
    with assms(2) show ?thesis by (simp add: alloc_new)
  qed
qed

lemma heap_inv_append:
  assumes inv: "heap_inv h" and scope: "this < lim_obj h"
  shows "heap_inv (snd (Selector_append m this v h))"
  unfolding heap_inv_def
proof (intro conjI allI impI)
  let ?h1 = "snd (Selector_append m this v h)"
  from inv have wf: "wf_heap h" by (simp add: heap_inv_def)
  then show "wf_heap ?h1" by (rule wf_heap_append)
  fix r assume "r < lim_obj ?h1"
  then have r: "r < lim_obj h" by (simp add: append_lims)
  with inv have old: "part_inv (items_of h r) (touched (objects h r))" by (simp add: heap_inv_def)
  show "part_inv (items_of ?h1 r) (touched (objects ?h1 r))"
  proof (cases "r = this")
    case True
    with old show ?thesis
      by (simp add: Selector_append_eq part_inv_append)
  next
    case False
    with wf scope r old show ?thesis
      by (simp add: append_other_object append_other_array)
  qed
qed

lemma heap_inv_exec: "heap_inv h \<Longrightarrow> in_scope c h \<Longrightarrow> heap_inv (snd (exec c h))"
  by (cases c)
    (simp_all add: exec_snd heap_inv_alloc heap_inv_append part_inv_created part_inv_empty part_inv_combined
      del: exec.simps)

lemma heap_inv_run: "heap_inv h \<Longrightarrow> valid cs h \<Longrightarrow> heap_inv (run cs h)"
  by (induction cs arbitrary: h) (simp_all add: heap_inv_exec del: exec.simps)

lemma heap_inv_empty: "heap_inv empty_heap"
  by (simp add: heap_inv_def wf_heap_empty) (simp add: empty_heap_def)

text \<open>
  A combinator fragment marks the builders that \<^verbatim>\<open>combine\<close> produced: the builder it
  returns holds one, a builder from a facade entry holds none, and an append neither adds
  nor removes one.
\<close>

lemma combine_has_combinator:
  "has_combinator (items_of (snd (cssSelectorBuilder_combine a t b h)) (fst (cssSelectorBuilder_combine a t b h)))"
  by (simp add: combine_eq alloc_new has_combinator_def)

lemma create_no_combinator:
  "\<not> has_combinator (items_of (snd (cssSelectorBuilder_create m v h)) (lim_obj h))"
  by (simp add: create_eq alloc_new has_combinator_def method_type_not_Combinator
      del: cssSelectorBuilder_create.simps)

lemma append_keeps_combinator:
  "has_combinator (items_of (snd (Selector_append m this v h)) this) = has_combinator (items_of h this)"
  by (simp add: Selector_append_eq has_combinator_append)


section \<open>Claims about reachable builders\<close>

lemma append_rank_ordered:
  assumes "rank_ordered (items_of h r)"
  shows "rank_ordered (items_of (snd (Selector_append m this v h)) r)"
proof (cases "is_touched m (touched (objects h this)) \<or> higher_rank_present (items_of h this) (method_type m)")
  case True
  with assms show ?thesis by (auto simp: Selector_append_eq)
next
  case False
  show ?thesis
  proof (cases "items (objects h r) = items (objects h this)")
    case True
    with assms have "rank_ordered (items_of h this)" by simp
    with False have "rank_ordered (items_of h this @ [\<lparr>item_type = method_type m, item_value = method_text m v\<rparr>])"
      by (simp add: rank_ordered_append)
    with False True show ?thesis by (simp add: Selector_append_eq)
  next
    case False
    with assms show ?thesis by (auto simp: Selector_append_eq)
  qed
qed

text \<open>
  Claim C2, as amended. In every store a program can reach, every builder whose sequence
  holds no combinator fragment (every builder that \<^verbatim>\<open>combine\<close> did not produce) has the
  ranks of its fragments in non-decreasing order; and every call preserves the order of
  every builder that exists when the call is made, builders produced by \<^verbatim>\<open>combine\<close>
  included. The builder that \<^verbatim>\<open>combine\<close> returns need not be ordered.
\<close>

theorem rank_order_invariant:
  assumes "valid cs empty_heap"
  shows "(this < lim_obj (run cs empty_heap) \<and> \<not> has_combinator (items_of (run cs empty_heap) this)
            \<longrightarrow> rank_ordered (items_of (run cs empty_heap) this))
         \<and> (in_scope c (run cs empty_heap) \<and> r < lim_obj (run cs empty_heap)
              \<and> rank_ordered (items_of (run cs empty_heap) r)
            \<longrightarrow> rank_ordered (items_of (snd (exec c (run cs empty_heap))) r))"
proof (intro conjI impI)
  let ?h = "run cs empty_heap"
  from assms have inv: "heap_inv ?h" by (intro heap_inv_run heap_inv_empty)
  then have wf: "wf_heap ?h" by (simp add: heap_inv_def)
  {
    assume "this < lim_obj ?h \<and> \<not> has_combinator (items_of ?h this)"
    with inv show "rank_ordered (items_of ?h this)"
      by (simp add: heap_inv_def part_inv_def)
  }
  assume a: "in_scope c ?h \<and> r < lim_obj ?h \<and> rank_ordered (items_of ?h r)"
  show "rank_ordered (items_of (snd (exec c ?h)) r)"
  proof (cases "append_target c = Some r")
    case True
    then obtain m v where "c = Append r m v" by (cases c) simp_all
    with a show ?thesis by (simp add: exec_snd append_rank_ordered del: exec.simps)
  next
    case False
    with a wf have "objects (snd (exec c ?h)) r = objects ?h r"
      and "arrays (snd (exec c ?h)) (items (objects ?h r)) = items_of ?h r"
      by (simp_all add: exec_frame_object exec_frame_array del: exec.simps)
    with a show ?thesis by simp
  qed
qed

theorem rank_order_invariant_witness:
  "valid [Create M_class ''x'', Append 0 M_class ''y''] empty_heap
   \<and> 0 < lim_obj (run [Create M_class ''x'', Append 0 M_class ''y''] empty_heap)
   \<and> \<not> has_combinator (items_of (run [Create M_class ''x'', Append 0 M_class ''y''] empty_heap) 0)
   \<and> rank_ordered (items_of (run [Create M_class ''x'', Append 0 M_class ''y''] empty_heap) 0)
   \<and> in_scope (Append 0 M_attr ''z'') (run [Create M_class ''x'', Append 0 M_class ''y''] empty_heap)
   \<and> rank_ordered (items_of (snd (exec (Append 0 M_attr ''z'') (run [Create M_class ''x'', Append 0 M_class ''y''] empty_heap))) 0)"
proof -
  have v: "valid [Create M_class ''x'', Append 0 M_class ''y''] empty_heap"
    by (simp add: run_defs)
  have s: "0 < lim_obj (run [Create M_class ''x'', Append 0 M_class ''y''] empty_heap)
     \<and> \<not> has_combinator (items_of (run [Create M_class ''x'', Append 0 M_class ''y''] empty_heap) 0)
     \<and> in_scope (Append 0 M_attr ''z'') (run [Create M_class ''x'', Append 0 M_class ''y''] empty_heap)"
    by (simp add: run_defs)
  from rank_order_invariant [OF v, of 0 "Append 0 M_attr ''z''" 0] v s show ?thesis by blast
qed

theorem rank_order_counterexample:
  "valid [Create M_element ''div'', Append 0 M_id ''main'', Create M_element ''table'', Combine 0 ''+'' 1] empty_heap
   \<and> 2 < lim_obj (run [Create M_element ''div'', Append 0 M_id ''main'', Create M_element ''table'', Combine 0 ''+'' 1] empty_heap)
   \<and> map item_type (items_of (run [Create M_element ''div'', Append 0 M_id ''main'', Create M_element ''table'', Combine 0 ''+'' 1] empty_heap) 2)
       = [Element, Id, Combinator, Element]
   \<and> \<not> rank_ordered (items_of (run [Create M_element ''div'', Append 0 M_id ''main'', Create M_element ''table'', Combine 0 ''+'' 1] empty_heap) 2)"
  by (simp add: run_defs)

text \<open>
  Claim C3, as amended. In every store a program can reach, every builder whose sequence
  holds no combinator fragment (every builder that \<^verbatim>\<open>combine\<close> did not produce) holds at
  most one element, at most one id and at most one pseudoElement fragment.
\<close>

theorem singletons_once_uncombined:
  assumes "valid cs empty_heap"
    and "this < lim_obj (run cs empty_heap)"
    and "\<not> has_combinator (items_of (run cs empty_heap) this)"
  shows "singletons_once (items_of (run cs empty_heap) this)"
proof -
  from assms(1) have "heap_inv (run cs empty_heap)" by (intro heap_inv_run heap_inv_empty)
  with assms(2,3) show ?thesis
    by (simp add: heap_inv_def part_inv_def singletons_once_def)
qed

theorem singletons_once_uncombined_witness:
  "valid [Create M_element ''a'', Append 0 M_element ''b'', Append 0 M_id ''c''] empty_heap
   \<and> 0 < lim_obj (run [Create M_element ''a'', Append 0 M_element ''b'', Append 0 M_id ''c''] empty_heap)
   \<and> \<not> has_combinator (items_of (run [Create M_element ''a'', Append 0 M_element ''b'', Append 0 M_id ''c''] empty_heap) 0)
   \<and> singletons_once (items_of (run [Create M_element ''a'', Append 0 M_element ''b'', Append 0 M_id ''c''] empty_heap) 0)"
proof -
  have v: "valid [Create M_element ''a'', Append 0 M_element ''b'', Append 0 M_id ''c''] empty_heap"
    by (simp add: run_defs)
  have s: "0 < lim_obj (run [Create M_element ''a'', Append 0 M_element ''b'', Append 0 M_id ''c''] empty_heap)"
    by (simp add: run_defs)
  have c: "\<not> has_combinator (items_of (run [Create M_element ''a'', Append 0 M_element ''b'', Append 0 M_id ''c''] empty_heap) 0)"
    by (simp add: run_defs)
  from singletons_once_uncombined [OF v s c] v s c show ?thesis by simp
qed

theorem singletons_once_counterexample:
  "valid [Create M_element ''a'', Create M_element ''b'', Combine 0 ''>'' 1, Append 2 M_element ''c''] empty_heap
   \<and> 2 < lim_obj (run [Create M_element ''a'', Create M_element ''b'', Combine 0 ''>'' 1] empty_heap)
   \<and> occurrences Element (items_of (run [Create M_element ''a'', Create M_element ''b'', Combine 0 ''>'' 1] empty_heap) 2) = 2
   \<and> \<not> singletons_once (items_of (run [Create M_element ''a'', Create M_element ''b'', Combine 0 ''>'' 1] empty_heap) 2)
   \<and> occurrences Element
        (items_of (run [Create M_element ''a'', Create M_element ''b'', Combine 0 ''>'' 1, Append 2 M_element ''c''] empty_heap) 2) = 3"
  by (simp add: run_defs)

section \<open>Claims about the history of a builder\<close>

lemma exec_fst:
  "fst (exec c h) =
     (case c of
        Create m v \<Rightarrow> Inr (Builder (lim_obj h))
      | CreateStringify \<Rightarrow> Inr (Text '''')
      | Append this m v \<Rightarrow> map_sum (\<lambda>e. e) Builder (fst (Selector_append m this v h))
      | Stringify this \<Rightarrow> Inr (Text (concat (map item_value (items_of h this))))
      | Combine a t b \<Rightarrow> Inr (Builder (lim_obj h)))"
  by (cases c)
    (simp_all add: create_eq create_stringify_eq combine_eq stringify_eq case_prod_beta
      del: Selector_append.simps cssSelectorBuilder_create.simps)

lemma append_fst:
  "fst (Selector_append m this v h) =
     (if is_touched m (touched (objects h this)) then Inl DuplicateSelectorPartError
      else if higher_rank_present (items_of h this) (method_type m) then Inl SelectorOrderError
      else Inr this)"
  by (simp add: Selector_append_eq)

lemma append_touched:
  "touched (objects (snd (Selector_append m this v h)) r) =
     (if r = this \<and> fst (Selector_append m this v h) = Inr this
      then mark_touched m (touched (objects h this)) else touched (objects h r))"
  by (simp add: Selector_append_eq)

lemma exec_result_in_scope:
  "in_scope c h \<Longrightarrow> fst (exec c h) = Inr (Builder r) \<Longrightarrow> r < lim_obj (snd (exec c h))"
  by (cases c)
    (auto simp: exec_fst exec_snd lim_obj_alloc append_lims append_fst simp del: exec.simps split: if_splits)

lemma append_own_items:
  "items_of (snd (Selector_append m this v h)) this =
     (if fst (Selector_append m this v h) = Inr this
      then items_of h this @ [\<lparr>item_type = method_type m, item_value = method_text m v\<rparr>]
      else items_of h this)"
  by (simp add: Selector_append_eq)

text \<open>A call that returns the builder has pushed its fragment.\<close>

lemma appends_here_iff:
  "appends_here c h this m =
     (fst (exec c h) = Inr (Builder this) \<and>
      (case c of Create m' v \<Rightarrow> m' = m | Append r m' v \<Rightarrow> m' = m | _ \<Rightarrow> False))"
proof (cases c)
  case (Create m' v)
  then show ?thesis
    by (auto simp: appends_here_def exec_fst exec_snd alloc_new simp del: exec.simps)
next
  case (Append r m' v)
  then show ?thesis
    by (auto simp: appends_here_def exec_fst exec_snd append_own_items append_fst
        simp del: exec.simps split: if_splits)
qed (simp_all add: appends_here_def del: exec.simps)

lemma not_touched_untouched: "\<not> is_touched m untouched"
  by (cases m) (simp_all add: untouched_def)

lemma exec_touched:
  assumes scope: "in_scope c h" and m: "m \<in> {M_element, M_id, M_pseudoElement}"
    and lt: "this < lim_obj (snd (exec c h))"
  shows "is_touched m (touched (objects (snd (exec c h)) this)) =
           ((this < lim_obj h \<and> is_touched m (touched (objects h this))) \<or> appends_here c h this m)"
proof (cases c)
  case (Create m' v)
  with lt have "this < lim_obj h \<or> this = lim_obj h" by (auto simp: exec_snd lim_obj_alloc simp del: exec.simps)
  with Create show ?thesis
    by (auto simp: appends_here_iff exec_fst exec_snd alloc_old_object alloc_new is_touched_mark [OF m]
        not_touched_untouched simp del: exec.simps)
next
  case CreateStringify
  with lt have "this < lim_obj h \<or> this = lim_obj h" by (auto simp: exec_snd lim_obj_alloc simp del: exec.simps)
  with CreateStringify show ?thesis
    by (auto simp: appends_here_iff exec_snd alloc_old_object alloc_new not_touched_untouched simp del: exec.simps)
next
  case (Append r m' v)
  with lt have "this < lim_obj h" by (simp add: exec_snd append_lims del: exec.simps)
  with Append show ?thesis
    by (auto simp: appends_here_iff exec_fst exec_snd append_touched append_fst is_touched_mark [OF m]
        simp del: exec.simps split: if_splits)
next
  case (Stringify r)
  with lt show ?thesis
    by (simp add: appends_here_iff exec_snd del: exec.simps)
next
  case (Combine a t b)
  with lt have "this < lim_obj h \<or> this = lim_obj h" by (auto simp: exec_snd lim_obj_alloc simp del: exec.simps)
  with Combine show ?thesis
    by (auto simp: appends_here_iff exec_snd alloc_old_object alloc_new not_touched_untouched simp del: exec.simps)
qed

lemma run_touched:
  assumes "valid cs h" and m: "m \<in> {M_element, M_id, M_pseudoElement}"
    and "this < lim_obj (run cs h)"
  shows "is_touched m (touched (objects (run cs h) this)) =
           ((this < lim_obj h \<and> is_touched m (touched (objects h this))) \<or> appended_via cs h this m)"
  using assms(1,3)
proof (induction cs arbitrary: h)
  case Nil
  then show ?case by simp
next
  case (Cons c cs)
  let ?h1 = "snd (exec c h)"
  from Cons.prems have scope: "in_scope c h" and v1: "valid cs ?h1" and t1: "this < lim_obj (run cs ?h1)"
    by simp_all
  have IH: "is_touched m (touched (objects (run cs ?h1) this)) =
      ((this < lim_obj ?h1 \<and> is_touched m (touched (objects ?h1 this))) \<or> appended_via cs ?h1 this m)"
    using v1 t1 by (rule Cons.IH)
  show ?case
  proof (cases "this < lim_obj ?h1")
    case True
    from exec_touched [OF scope m True] IH True show ?thesis by (simp del: exec.simps)
  next
    case False
    with exec_result_in_scope [OF scope, of this] have "\<not> appends_here c h this m"
      by (auto simp: appends_here_iff)
    moreover from False exec_lim_obj [of h c] have "\<not> this < lim_obj h" by simp
    ultimately show ?thesis using IH False by (simp del: exec.simps)
  qed
qed

lemma exec_items_grow:
  assumes "wf_heap h" and "in_scope c h" and "r < lim_obj h"
  shows "occurrences K (items_of h r) \<le> occurrences K (items_of (snd (exec c h)) r)"
proof (cases "append_target c = Some r")
  case True
  then obtain m v where "c = Append r m v" by (cases c) simp_all
  then show ?thesis
    by (simp add: exec_snd append_own_items occurrences_append del: exec.simps)
next
  case False
  with assms have "objects (snd (exec c h)) r = objects h r"
    and "arrays (snd (exec c h)) (items (objects h r)) = items_of h r"
    by (simp_all add: exec_frame_object exec_frame_array del: exec.simps)
  then show ?thesis by simp
qed

lemma run_items_grow:
  "wf_heap h \<Longrightarrow> valid cs h \<Longrightarrow> r < lim_obj h \<Longrightarrow>
     occurrences K (items_of h r) \<le> occurrences K (items_of (run cs h) r)"
proof (induction cs arbitrary: h)
  case Nil
  then show ?case by simp
next
  case (Cons c cs)
  let ?h1 = "snd (exec c h)"
  from Cons.prems have "occurrences K (items_of h r) \<le> occurrences K (items_of ?h1 r)"
    by (intro exec_items_grow) simp_all
  also have "\<dots> \<le> occurrences K (items_of (run cs ?h1) r)"
  proof (rule Cons.IH)
    show "wf_heap ?h1" using Cons.prems(1) by (rule exec_wf)
    show "valid cs ?h1" using Cons.prems(2) by simp
    show "r < lim_obj ?h1" using Cons.prems(3) exec_lim_obj [of h c] by simp
  qed
  finally show ?case by simp
qed

lemma appends_here_present:
  "appends_here c h this m \<Longrightarrow> 0 < occurrences (method_type m) (items_of (snd (exec c h)) this)"
  by (cases c) (auto simp: appends_here_def occurrences_def simp del: exec.simps)

text \<open>What was appended through an operation is still in the sequence afterwards.\<close>

lemma appended_via_present:
  "wf_heap h \<Longrightarrow> valid cs h \<Longrightarrow> appended_via cs h this m \<Longrightarrow>
     0 < occurrences (method_type m) (items_of (run cs h) this)"
proof (induction cs arbitrary: h)
  case Nil
  then show ?case by simp
next
  case (Cons c cs)
  let ?h1 = "snd (exec c h)"
  from Cons.prems have wf1: "wf_heap ?h1" and v1: "valid cs ?h1" and scope: "in_scope c h"
    by (simp_all add: exec_wf del: exec.simps)
  show ?case
  proof (cases "appends_here c h this m")
    case True
    then have "0 < occurrences (method_type m) (items_of ?h1 this)"
      by (rule appends_here_present)
    moreover from True have "fst (exec c h) = Inr (Builder this)"
      by (simp add: appends_here_def)
    with scope have "this < lim_obj ?h1" by (rule exec_result_in_scope)
    with wf1 v1 have "occurrences (method_type m) (items_of ?h1 this)
        \<le> occurrences (method_type m) (items_of (run cs ?h1) this)"
      by (rule run_items_grow)
    ultimately show ?thesis by simp
  next
    case False
    with Cons.prems(3) have "appended_via cs ?h1 this m" by simp
    with wf1 v1 show ?thesis using Cons.IH by simp
  qed
qed

text \<open>
  Claim C4. On every builder a program can reach, \<^verbatim>\<open>element\<close>, \<^verbatim>\<open>id\<close> and \<^verbatim>\<open>pseudoElement\<close>
  raise \<open>DuplicateSelectorPartError\<close> exactly when an earlier call of the same operation,
  on this builder or as the facade entry that created it, appended its fragment to this
  builder; that fragment is then still in the sequence. \<^verbatim>\<open>class\<close>, \<^verbatim>\<open>attr\<close> and
  \<^verbatim>\<open>pseudoClass\<close> never raise the error, in any store; and
  \<^verbatim>\<open>class('x').class('y').stringify()\<close> is \<^verbatim>\<open>'.x.y'\<close>.
\<close>

theorem duplicate_error_iff:
  assumes "valid cs empty_heap" and "this < lim_obj (run cs empty_heap)"
  shows "(fst (Selector_append m this v (run cs empty_heap)) = Inl DuplicateSelectorPartError
            \<longleftrightarrow> m \<in> {M_element, M_id, M_pseudoElement} \<and> appended_via cs empty_heap this m)
         \<and> (appended_via cs empty_heap this m
              \<longrightarrow> 0 < occurrences (method_type m) (items_of (run cs empty_heap) this))
         \<and> (m \<in> {M_class, M_attr, M_pseudoClass}
              \<longrightarrow> fst (Selector_append m r w h) \<noteq> Inl DuplicateSelectorPartError)
         \<and> fst (exec (Append 0 M_class ''y'') (run [Create M_class ''x''] empty_heap)) = Inr (Builder 0)
         \<and> fst (Selector_stringify 0 (run [Create M_class ''x'', Append 0 M_class ''y''] empty_heap)) = ''.x.y''"
proof (intro conjI impI)
  have dup: "\<And>h. (fst (Selector_append m this v h) = Inl DuplicateSelectorPartError)
      = is_touched m (touched (objects h this))"
    by (simp add: append_fst)
  show "(fst (Selector_append m this v (run cs empty_heap)) = Inl DuplicateSelectorPartError)
      = (m \<in> {M_element, M_id, M_pseudoElement} \<and> appended_via cs empty_heap this m)"
  proof (cases "m \<in> {M_element, M_id, M_pseudoElement}")
    case True
    from run_touched [OF assms(1) True assms(2)] True show ?thesis
      by (simp add: dup) (simp add: empty_heap_def)
  next
    case False
    then have "\<And>t. \<not> is_touched m t" by (cases m) simp_all
    with False show ?thesis by (simp add: dup)
  qed
  show "0 < occurrences (method_type m) (items_of (run cs empty_heap) this)"
    if "appended_via cs empty_heap this m"
    using wf_heap_empty assms(1) that by (rule appended_via_present)
  show "fst (Selector_append m r w h) \<noteq> Inl DuplicateSelectorPartError"
    if "m \<in> {M_class, M_attr, M_pseudoClass}"
    using that by (auto simp: append_fst)
  show "fst (exec (Append 0 M_class ''y'') (run [Create M_class ''x''] empty_heap)) = Inr (Builder 0)"
    by (simp add: run_defs)
  show "fst (Selector_stringify 0 (run [Create M_class ''x'', Append 0 M_class ''y''] empty_heap)) = ''.x.y''"
    by (simp add: run_defs)
qed

text \<open>
  Two runs of the theorem. After \<^verbatim>\<open>element('a').class('x')\<close> a second \<^verbatim>\<open>element\<close> raises
  the error, the first call having appended the one element fragment of the sequence.
  On \<^verbatim>\<open>combine(element('a'), '>', element('b'))\<close> no call of \<^verbatim>\<open>element\<close> was made, and
  \<^verbatim>\<open>element('c')\<close> returns the builder although the sequence holds two element
  fragments.
\<close>

theorem duplicate_error_iff_witness:
  "valid [Create M_element ''a'', Append 0 M_class ''x''] empty_heap
   \<and> 0 < lim_obj (run [Create M_element ''a'', Append 0 M_class ''x''] empty_heap)
   \<and> appended_via [Create M_element ''a'', Append 0 M_class ''x''] empty_heap 0 M_element
   \<and> fst (Selector_append M_element 0 ''b'' (run [Create M_element ''a'', Append 0 M_class ''x''] empty_heap))
       = Inl DuplicateSelectorPartError
   \<and> occurrences Element (items_of (run [Create M_element ''a'', Append 0 M_class ''x''] empty_heap) 0) = 1
   \<and> valid [Create M_element ''a'', Create M_element ''b'', Combine 0 ''>'' 1] empty_heap
   \<and> 2 < lim_obj (run [Create M_element ''a'', Create M_element ''b'', Combine 0 ''>'' 1] empty_heap)
   \<and> \<not> appended_via [Create M_element ''a'', Create M_element ''b'', Combine 0 ''>'' 1] empty_heap 2 M_element
   \<and> fst (Selector_append M_element 2 ''c'' (run [Create M_element ''a'', Create M_element ''b'', Combine 0 ''>'' 1] empty_heap))
       \<noteq> Inl DuplicateSelectorPartError
   \<and> M_class \<in> {M_class, M_attr, M_pseudoClass}
   \<and> fst (Selector_append M_class 0 ''y'' (snd (cssSelectorBuilder_class ''x'' empty_heap))) \<noteq> Inl DuplicateSelectorPartError"
proof -
  have v: "valid [Create M_element ''a'', Append 0 M_class ''x''] empty_heap"
    by (simp add: run_defs)
  have s: "0 < lim_obj (run [Create M_element ''a'', Append 0 M_class ''x''] empty_heap)"
    by (simp add: run_defs)
  have a: "appended_via [Create M_element ''a'', Append 0 M_class ''x''] empty_heap 0 M_element"
    by (simp add: appends_here_def run_defs)
  have o: "occurrences Element (items_of (run [Create M_element ''a'', Append 0 M_class ''x''] empty_heap) 0) = 1"
    by (simp add: run_defs)
  have v2: "valid [Create M_element ''a'', Create M_element ''b'', Combine 0 ''>'' 1] empty_heap"
    by (simp add: run_defs)
  have s2: "2 < lim_obj (run [Create M_element ''a'', Create M_element ''b'', Combine 0 ''>'' 1] empty_heap)"
    by (simp add: run_defs)
  have n2: "\<not> appended_via [Create M_element ''a'', Create M_element ''b'', Combine 0 ''>'' 1] empty_heap 2 M_element"
    by (simp add: appends_here_def run_defs)
  from duplicate_error_iff [OF v s, of M_element "''b''"]
    duplicate_error_iff [OF v2 s2, of M_element "''c''"]
    duplicate_error_iff [OF v s, of M_class "''j''" 0 "''y''" "snd (cssSelectorBuilder_class ''x'' empty_heap)"]
    v s a o v2 s2 n2
  show ?thesis by simp
qed



section \<open>Claims about sharing between builders\<close>

lemma list_all_other_target:
  "list_all (\<lambda>x. append_target x = Some c) cs \<Longrightarrow> c \<noteq> r \<Longrightarrow> list_all (\<lambda>x. append_target x \<noteq> Some r) cs"
  by (induction cs) auto

lemma list_all_two_targets:
  "list_all (\<lambda>x. append_target x = Some a \<or> append_target x = Some b) cs \<Longrightarrow> a \<noteq> r \<Longrightarrow> b \<noteq> r \<Longrightarrow>
     list_all (\<lambda>x. append_target x \<noteq> Some r) cs"
  by (induction cs) auto

lemma run_frame_items:
  assumes "wf_heap h" and "valid cs h" and "r < lim_obj h"
    and "list_all (\<lambda>c. append_target c \<noteq> Some r) cs"
  shows "items_of (run cs h) r = items_of h r"
  using run_frame [OF assms] by simp

text \<open>
  Claim C7. Let \<open>c\<close> be the builder that \<^verbatim>\<open>combine(a, t, b)\<close> returns in a store a program
  has reached. Whatever appends are then made to \<open>c\<close>, the sequences and the
  \<^verbatim>\<open>stringify()\<close> outputs of \<open>a\<close> and \<open>b\<close> stay what they were before the combine; and
  whatever appends are then made to \<open>a\<close> and \<open>b\<close>, the sequence and the \<^verbatim>\<open>stringify()\<close>
  output of \<open>c\<close> stay what they were when \<^verbatim>\<open>combine\<close> returned.
\<close>

theorem combine_no_aliasing:
  fixes cs cs2 :: "call list" and a b :: ref and t :: string
  defines "h \<equiv> run cs empty_heap"
  defines "c \<equiv> fst (cssSelectorBuilder_combine a t b h)"
  defines "h1 \<equiv> snd (cssSelectorBuilder_combine a t b h)"
  assumes "valid cs empty_heap" and "a < lim_obj h" and "b < lim_obj h" and "valid cs2 h1"
  shows "(list_all (\<lambda>x. append_target x = Some c) cs2 \<longrightarrow>
            items_of (run cs2 h1) a = items_of h a \<and> items_of (run cs2 h1) b = items_of h b
            \<and> fst (Selector_stringify a (run cs2 h1)) = fst (Selector_stringify a h)
            \<and> fst (Selector_stringify b (run cs2 h1)) = fst (Selector_stringify b h))
         \<and> (list_all (\<lambda>x. append_target x = Some a \<or> append_target x = Some b) cs2 \<longrightarrow>
            items_of (run cs2 h1) c = items_of h1 c
            \<and> fst (Selector_stringify c (run cs2 h1)) = fst (Selector_stringify c h1))"
proof -
  have wf: "wf_heap h" unfolding h_def by (rule run_wf [OF wf_heap_empty])
  have c: "c = lim_obj h" and h1: "h1 = alloc (items_of h a @ [\<lparr>item_type = Combinator, item_value = '' '' @ t @ '' ''\<rparr>] @ items_of h b) untouched h"
    unfolding c_def h1_def by (simp_all add: combine_eq)
  have wf1: "wf_heap h1" unfolding h1 using wf by (rule wf_heap_alloc)
  have lim1: "lim_obj h1 = Suc (lim_obj h)" unfolding h1 by (rule lim_obj_alloc)
  have old: "items_of h1 r = items_of h r" if "r < lim_obj h" for r
    unfolding h1 using wf that by (simp add: alloc_old_object alloc_old_array)
  have ca: "c \<noteq> a" and cb: "c \<noteq> b" using assms(5,6) c by simp_all
  have part1: "items_of (run cs2 h1) r = items_of h r"
    if "list_all (\<lambda>x. append_target x = Some c) cs2" and "r < lim_obj h" for r
  proof -
    from that c have "list_all (\<lambda>x. append_target x \<noteq> Some r) cs2"
      by (intro list_all_other_target [of c]) simp_all
    with wf1 assms(7) that(2) lim1 have "items_of (run cs2 h1) r = items_of h1 r"
      by (intro run_frame_items) simp_all
    with old [OF that(2)] show ?thesis by simp
  qed
  have part2: "items_of (run cs2 h1) c = items_of h1 c"
    if "list_all (\<lambda>x. append_target x = Some a \<or> append_target x = Some b) cs2"
  proof -
    from that ca cb have "list_all (\<lambda>x. append_target x \<noteq> Some c) cs2"
      by (intro list_all_two_targets [of a b]) simp_all
    with wf1 assms(7) c lim1 show ?thesis
      by (intro run_frame_items) simp_all
  qed
  from part1 part2 assms(5,6) show ?thesis
    by (simp add: stringify_eq)
qed

theorem combine_no_aliasing_witness:
  "valid [Create M_element ''div'', Create M_element ''table''] empty_heap
   \<and> 0 < lim_obj (run [Create M_element ''div'', Create M_element ''table''] empty_heap)
   \<and> 1 < lim_obj (run [Create M_element ''div'', Create M_element ''table''] empty_heap)
   \<and> fst (cssSelectorBuilder_combine 0 ''+'' 1 (run [Create M_element ''div'', Create M_element ''table''] empty_heap)) = 2
   \<and> valid [Append 2 M_class ''x'']
        (snd (cssSelectorBuilder_combine 0 ''+'' 1 (run [Create M_element ''div'', Create M_element ''table''] empty_heap)))
   \<and> fst (Selector_stringify 2 (run [Append 2 M_class ''x'']
        (snd (cssSelectorBuilder_combine 0 ''+'' 1 (run [Create M_element ''div'', Create M_element ''table''] empty_heap)))))
       = ''div + table.x''
   \<and> fst (Selector_stringify 0 (run [Append 2 M_class ''x'']
        (snd (cssSelectorBuilder_combine 0 ''+'' 1 (run [Create M_element ''div'', Create M_element ''table''] empty_heap)))))
       = ''div''
   \<and> fst (Selector_stringify 1 (run [Append 2 M_class ''x'']
        (snd (cssSelectorBuilder_combine 0 ''+'' 1 (run [Create M_element ''div'', Create M_element ''table''] empty_heap)))))
       = ''table''
   \<and> valid [Append 0 M_id ''main'', Append 1 M_class ''y'']
        (snd (cssSelectorBuilder_combine 0 ''+'' 1 (run [Create M_element ''div'', Create M_element ''table''] empty_heap)))
   \<and> fst (Selector_stringify 0 (run [Append 0 M_id ''main'', Append 1 M_class ''y'']
        (snd (cssSelectorBuilder_combine 0 ''+'' 1 (run [Create M_element ''div'', Create M_element ''table''] empty_heap)))))
       = ''div#main''
   \<and> fst (Selector_stringify 2 (run [Append 0 M_id ''main'', Append 1 M_class ''y'']
        (snd (cssSelectorBuilder_combine 0 ''+'' 1 (run [Create M_element ''div'', Create M_element ''table''] empty_heap)))))
       = ''div + table''"
proof -
  let ?h = "run [Create M_element ''div'', Create M_element ''table''] empty_heap"
  let ?h1 = "snd (cssSelectorBuilder_combine 0 ''+'' 1 ?h)"
  have v: "valid [Create M_element ''div'', Create M_element ''table''] empty_heap"
    by (simp add: run_defs)
  have a: "0 < lim_obj ?h" and b: "1 < lim_obj ?h"
    by (simp_all add: run_defs)
  have c: "fst (cssSelectorBuilder_combine 0 ''+'' 1 ?h) = 2"
    by (simp add: run_defs)
  have v1: "valid [Append 2 M_class ''x''] ?h1"
    by (simp add: run_defs)
  have v2: "valid [Append 0 M_id ''main'', Append 1 M_class ''y''] ?h1"
    by (simp add: run_defs)
  have s: "fst (Selector_stringify 0 ?h) = ''div''" "fst (Selector_stringify 1 ?h) = ''table''"
    "fst (Selector_stringify 2 ?h1) = ''div + table''"
    by (simp_all add: run_defs)
  have o: "fst (Selector_stringify 2 (run [Append 2 M_class ''x''] ?h1)) = ''div + table.x''"
    "fst (Selector_stringify 0 (run [Append 0 M_id ''main'', Append 1 M_class ''y''] ?h1)) = ''div#main''"
    by (simp_all add: run_defs)
  from combine_no_aliasing [OF v a b v1] combine_no_aliasing [OF v a b v2] v a b c v1 v2 s o
  show ?thesis by simp
qed


section \<open>The round trip through JSON text\<close>

subsection \<open>Numbers\<close>















subsection \<open>Strings\<close>






lemma parse_string_quoted:
  "QuoteJSONString s @ r = CHR 0x22 # concat (map escape_char s) @ CHR 0x22 # r"
  by (simp add: QuoteJSONString_def)

subsection \<open>Values\<close>











subsection \<open>The bound is enough\<close>




subsection \<open>The parser always returns\<close>

lemma skip_ws_length: "length (skip_ws s) \<le> length s"
  by (simp add: skip_ws_def length_dropWhile_le)

lemma skip_ws_Cons_length: "skip_ws s = c # r \<Longrightarrow> length r < length s"
  using skip_ws_length [of s] by simp

lemma parse_string_shorter: "parse_string s = Inr (str, r) \<Longrightarrow> length r < length s"
proof (induction s arbitrary: str r rule: parse_string.induct)
  case 1
  then show ?case by simp
next
  case (2 c s)
  show ?case
  proof (cases "c = CHR 0x22")
    case True
    with 2(4) show ?thesis by simp
  next
    case nq: False
    show ?thesis
    proof (cases "c = CHR 0x5C")
      case True
      with nq 2(4) obtain e s1 where s: "s = e # s1" by (cases s) auto
      show ?thesis
      proof (cases "e = CHR ''u''")
        case u: True
        with nq True s 2(4) obtain ch str' where "unicode_escape (take 4 s1) = Inr ch"
          and "parse_string (drop 4 s1) = Inr (str', r)"
          by (auto split: sum.splits)
        with 2(1) [OF nq True s u] have "length r < length (drop 4 s1)" by simp
        with s show ?thesis by simp
      next
        case nu: False
        with nq True s 2(4) obtain ch str' where ch: "unescape e = Some ch"
          and "parse_string s1 = Inr (str', r)"
          by (auto split: sum.splits option.splits)
        with 2(2) [OF nq True s nu ch] have "length r < length s1" by simp
        with s show ?thesis by simp
      qed
    next
      case nb: False
      with nq 2(4) have ge: "\<not> (of_char c :: nat) < 32" by (auto split: if_splits)
      with nq nb 2(4) obtain str' where "parse_string s = Inr (str', r)"
        by (auto split: sum.splits)
      with 2(3) [OF nq nb ge] show ?thesis by simp
    qed
  qed
qed

lemma literal_shorter:
  assumes "w \<noteq> []" and "literal w v s = Inr (x, r)"
  shows "length r < length s"
proof -
  from assms(2) have t: "take (length w) s = w" and r: "r = drop (length w) s"
    by (auto simp: literal_def split: if_splits)
  from t have "min (length s) (length w) = length w" by (metis length_take)
  then have "length w \<le> length s" by arith
  moreover from assms(1) have "0 < length w" by simp
  moreover from r have "length r = length s - length w" by simp
  ultimately show ?thesis by arith
qed

lemma parse_number_shorter: "parse_number s = Inr (n, r) \<Longrightarrow> length r < length s"
proof -
  assume a: "parse_number s = Inr (n, r)"
  let ?s1 = "if s \<noteq> [] \<and> hd s = CHR ''-'' then tl s else s"
  from a have ne: "takeWhile is_digit ?s1 \<noteq> []" and r: "r = dropWhile is_digit ?s1"
    by (auto simp: parse_number_def Let_def split: if_splits)
  have "length (takeWhile is_digit ?s1) + length (dropWhile is_digit ?s1) = length ?s1"
    by (metis length_append takeWhile_dropWhile_id)
  with ne r have "length r < length ?s1" by (cases "takeWhile is_digit ?s1") auto
  moreover have "length ?s1 \<le> length s" by simp
  ultimately show ?thesis by simp
qed

lemma parser_returns:
  "(2 * length s + 1 \<le> f \<longrightarrow>
      (\<exists>res. parse_value f s = Some res \<and> (\<forall>v r. res = Inr (v, r) \<longrightarrow> length r < length s)))
   \<and> (2 * length s + 2 \<le> f \<longrightarrow>
      (\<exists>res. parse_elements f s = Some res \<and> (\<forall>vs r. res = Inr (vs, r) \<longrightarrow> length r < length s)))
   \<and> (2 * length s + 2 \<le> f \<longrightarrow>
      (\<exists>res. parse_members f s = Some res \<and> (\<forall>ms r. res = Inr (ms, r) \<longrightarrow> length r < length s)))"
proof (induction f arbitrary: s)
  case 0
  then show ?case by simp
next
  case (Suc f)
  have IHv: "\<exists>res. parse_value f t = Some res \<and> (\<forall>v r. res = Inr (v, r) \<longrightarrow> length r < length t)"
    if "2 * length t + 1 \<le> f" for t using Suc.IH [of t] that by blast
  have IHe: "\<exists>res. parse_elements f t = Some res \<and> (\<forall>v r. res = Inr (v, r) \<longrightarrow> length r < length t)"
    if "2 * length t + 2 \<le> f" for t using Suc.IH [of t] that by blast
  have IHm: "\<exists>res. parse_members f t = Some res \<and> (\<forall>v r. res = Inr (v, r) \<longrightarrow> length r < length t)"
    if "2 * length t + 2 \<le> f" for t using Suc.IH [of t] that by blast
  show ?case
  proof (intro conjI impI)
    assume b: "2 * length s + 1 \<le> Suc f"
    show "\<exists>res. parse_value (Suc f) s = Some res \<and> (\<forall>v r. res = Inr (v, r) \<longrightarrow> length r < length s)"
    proof (cases "skip_ws s")
      case Nil
      then show ?thesis by simp
    next
      case (Cons c r)
      then have lr: "length r < length s" by (rule skip_ws_Cons_length)
      consider (arr) "c = CHR ''[''" | (obj) "c \<noteq> CHR ''[''" "c = CHR ''{''"
        | (str) "c \<noteq> CHR ''[''" "c \<noteq> CHR ''{''" "c = CHR 0x22"
        | (lit) "c \<noteq> CHR ''[''" "c \<noteq> CHR ''{''" "c \<noteq> CHR 0x22" "c = CHR ''t'' \<or> c = CHR ''f'' \<or> c = CHR ''n''"
        | (num) "c \<noteq> CHR ''[''" "c \<noteq> CHR ''{''" "c \<noteq> CHR 0x22" "c \<noteq> CHR ''t''" "c \<noteq> CHR ''f''" "c \<noteq> CHR ''n''"
        by blast
      then show ?thesis
      proof cases
        case arr
        from b lr have "2 * length r + 2 \<le> f" by simp
        from IHe [OF this] obtain res where res: "parse_elements f r = Some res"
          and sh: "\<forall>v q. res = Inr (v, q) \<longrightarrow> length q < length r" by blast
        show ?thesis
        proof (cases "skip_ws r")
          case Nil
          with Cons arr show ?thesis by simp
        next
          case c2: (Cons c' r')
          then have "length r' < length r" by (rule skip_ws_Cons_length)
          with Cons arr c2 res sh lr show ?thesis
            by (cases res) (auto split: prod.splits)
        qed
      next
        case obj
        from b lr have "2 * length r + 2 \<le> f" by simp
        from IHm [OF this] obtain res where res: "parse_members f r = Some res"
          and sh: "\<forall>v q. res = Inr (v, q) \<longrightarrow> length q < length r" by blast
        show ?thesis
        proof (cases "skip_ws r")
          case Nil
          with Cons obj show ?thesis by simp
        next
          case c2: (Cons c' r')
          then have "length r' < length r" by (rule skip_ws_Cons_length)
          with Cons obj c2 res sh lr show ?thesis
            by (cases res) (auto split: prod.splits)
        qed
      next
        case str
        with Cons have eq: "parse_value (Suc f) s =
            (case parse_string r of Inl err \<Rightarrow> Some (Inl err) | Inr (str, r') \<Rightarrow> Some (Inr (JStr str, r')))"
          by simp
        show ?thesis
        proof (cases "parse_string r")
          case (Inl err)
          with eq show ?thesis by simp
        next
          case (Inr sr)
          obtain str r' where sr: "sr = (str, r')" by (cases sr)
          with Inr have "length r' < length r" by (auto dest: parse_string_shorter)
          with eq Inr sr lr show ?thesis by simp
        qed
      next
        case lit
        have ls: "length (skip_ws s) \<le> length s" by (rule skip_ws_length)
        have "\<exists>w x. w \<noteq> [] \<and> parse_value (Suc f) s = Some (literal w x (c # r))"
        proof -
          from lit(4) consider "c = CHR ''t''" | "c = CHR ''f''" | "c = CHR ''n''" by blast
          then show ?thesis
          proof cases
            case 1
            with Cons have "''true'' \<noteq> [] \<and> parse_value (Suc f) s = Some (literal ''true'' (JBool True) (c # r))"
              by simp
            then show ?thesis by blast
          next
            case 2
            with Cons have "''false'' \<noteq> [] \<and> parse_value (Suc f) s = Some (literal ''false'' (JBool False) (c # r))"
              by simp
            then show ?thesis by blast
          next
            case 3
            with Cons have "''null'' \<noteq> [] \<and> parse_value (Suc f) s = Some (literal ''null'' JNull (c # r))"
              by simp
            then show ?thesis by blast
          qed
        qed
        then obtain w x where w: "w \<noteq> []" and eq: "parse_value (Suc f) s = Some (literal w x (c # r))"
          by blast
        show ?thesis
        proof (cases "literal w x (c # r)")
          case (Inl err)
          with eq show ?thesis by simp
        next
          case (Inr vr)
          obtain v r' where vr: "vr = (v, r')" by (cases vr)
          with Inr w have "length r' < length (c # r)" by (auto dest: literal_shorter)
          with ls Cons have "length r' < length s" by simp
          with eq Inr vr show ?thesis by simp
        qed
      next
        case num
        have ls: "length (skip_ws s) \<le> length s" by (rule skip_ws_length)
        from num Cons have eq: "parse_value (Suc f) s =
            (case parse_number (c # r) of Inl err \<Rightarrow> Some (Inl err) | Inr (n, r') \<Rightarrow> Some (Inr (JNum n, r')))"
          by simp
        show ?thesis
        proof (cases "parse_number (c # r)")
          case (Inl err)
          with eq show ?thesis by simp
        next
          case (Inr nr)
          obtain n r' where nr: "nr = (n, r')" by (cases nr)
          with Inr have "length r' < length (c # r)" by (auto dest: parse_number_shorter)
          with ls Cons have "length r' < length s" by simp
          with eq Inr nr show ?thesis by simp
        qed
      qed
    qed
  next
    assume b: "2 * length s + 2 \<le> Suc f"
    then have "2 * length s + 1 \<le> f" by simp
    from IHv [OF this] obtain res where res: "parse_value f s = Some res"
      and sh: "\<forall>v r. res = Inr (v, r) \<longrightarrow> length r < length s" by blast
    show "\<exists>res. parse_elements (Suc f) s = Some res \<and> (\<forall>vs r. res = Inr (vs, r) \<longrightarrow> length r < length s)"
    proof (cases res)
      case (Inl err)
      with res show ?thesis by simp
    next
      case (Inr vr)
      obtain v r where vr: "vr = (v, r)" by (cases vr)
      with Inr sh have lr: "length r < length s" by simp
      show ?thesis
      proof (cases "skip_ws r")
        case Nil
        with res Inr vr show ?thesis by simp
      next
        case (Cons c r')
        then have lr': "length r' < length r" by (rule skip_ws_Cons_length)
        with b lr have "2 * length r' + 2 \<le> f" by simp
        from IHe [OF this] obtain res' where res': "parse_elements f r' = Some res'"
          and sh': "\<forall>v q. res' = Inr (v, q) \<longrightarrow> length q < length r'" by blast
        with res Inr vr Cons lr lr' show ?thesis
          by (cases res') (auto split: prod.splits)
      qed
    qed
  next
    assume b: "2 * length s + 2 \<le> Suc f"
    show "\<exists>res. parse_members (Suc f) s = Some res \<and> (\<forall>ms r. res = Inr (ms, r) \<longrightarrow> length r < length s)"
    proof (cases "skip_ws s")
      case Nil
      then show ?thesis by simp
    next
      case (Cons q r)
      then have lr: "length r < length s" by (rule skip_ws_Cons_length)
      show ?thesis
      proof (cases "q = CHR 0x22")
        case False
        with Cons show ?thesis by simp
      next
        case True
        show ?thesis
        proof (cases "parse_string r")
          case (Inl err)
          with Cons True show ?thesis by simp
        next
          case (Inr kr)
          obtain k r1 where kr: "kr = (k, r1)" by (cases kr)
          with Inr have l1: "length r1 < length r" by (auto dest: parse_string_shorter)
          show ?thesis
          proof (cases "skip_ws r1")
            case Nil
            with Cons True Inr kr show ?thesis by simp
          next
            case c1: (Cons c r2)
            then have l2: "length r2 < length r1" by (rule skip_ws_Cons_length)
            show ?thesis
            proof (cases "c = CHR '':''")
              case False
              with Cons True Inr kr c1 show ?thesis by simp
            next
              case colon: True
              from b lr l1 l2 have "2 * length r2 + 1 \<le> f" by simp
              from IHv [OF this] obtain res where res: "parse_value f r2 = Some res"
                and sh: "\<forall>v q. res = Inr (v, q) \<longrightarrow> length q < length r2" by blast
              show ?thesis
              proof (cases res)
                case el: (Inl err)
                with Cons True Inr kr c1 colon res show ?thesis by simp
              next
                case vr: (Inr vr3)
                obtain v r3 where vr3: "vr3 = (v, r3)" by (cases vr3)
                with vr sh have l3: "length r3 < length r2" by simp
                show ?thesis
                proof (cases "skip_ws r3")
                  case Nil
                  with Cons True Inr kr c1 colon res vr vr3 show ?thesis by simp
                next
                  case c3: (Cons d r4)
                  then have l4: "length r4 < length r3" by (rule skip_ws_Cons_length)
                  with b lr l1 l2 l3 have "2 * length r4 + 2 \<le> f" by simp
                  from IHm [OF this] obtain res' where res': "parse_members f r4 = Some res'"
                    and sh': "\<forall>v q. res' = Inr (v, q) \<longrightarrow> length q < length r4" by blast
                  with Cons True Inr kr c1 colon res vr vr3 c3 lr l1 l2 l3 l4 show ?thesis
                    by (cases res') (auto split: prod.splits)
                qed
              qed
            qed
          qed
        qed
      qed
    qed
  qed
qed

lemma JSON_parse_returns: "JSON_parse s \<noteq> None"
proof -
  from parser_returns [of s "2 * length s + 1"]
  obtain res where "parse_value (2 * length s + 1) s = Some res" by auto
  then show ?thesis
    by (cases res) (auto simp: JSON_parse_def split: prod.splits)
qed

lemma fromJSON_returns: "fromJSON proto json \<noteq> None"
  using JSON_parse_returns [of json]
  by (auto simp: fromJSON_def split: option.splits sum.splits)



end
